theory Spec2Isabelle
  imports Main
begin

section \<open>Data model\<close>

text \<open>
  The repository holds two revisions of \<^verbatim>\<open>main.go\<close>:
  \<^verbatim>\<open>src/high-performance-go-server.go\<close> (\<open>Base\<close>) and \<^verbatim>\<open>src/unnamed/part_000\<close>
  (\<open>Verbose\<close>). They share all control flow; \<open>Verbose\<close> adds the fields \<open>ID\<close> and
  \<open>Source\<close> to \<open>Message\<close> and more log lines to \<open>handleConnection\<close>. A server of
  revision \<open>Base\<close> holds \<open>Message\<close> values of \<open>Base\<close> only, one of revision
  \<open>Verbose\<close> those of \<open>Verbose\<close> only.
\<close>

datatype revision = Base | Verbose

text \<open>The text returned by \<^verbatim>\<open>err.Error()\<close>: all the code ever looks at in an error.\<close>

type_synonym error = string

text \<open>A \<^verbatim>\<open>net.Conn\<close> handle: the n-th connection returned by \<^verbatim>\<open>Accept\<close>.\<close>

type_synonym conn = nat

text \<open>\<^verbatim>\<open>time.Duration\<close> and \<^verbatim>\<open>time.Time\<close> are counts of nanoseconds, a
  \<^verbatim>\<open>time.Time\<close> from the zero \<^verbatim>\<open>Time\<close>.\<close>

definition zero_Time :: int where
  "zero_Time = 0"

record Config =
  Port :: string
  ReadTimeout :: int
  WriteTimeout :: int
  MaxConnections :: int
  ShutdownTimeout :: int

text \<open>
  \<open>Message\<close> of \<open>Base\<close>. The payload (\<^verbatim>\<open>interface{}\<close>) is nil (\<open>None\<close>) or a
  decoded JSON value, whose type is a parameter.
\<close>

record 'p Message =
  Type :: string
  Payload :: "'p option"
  Time :: int

text \<open>\<open>Message\<close> of \<open>Verbose\<close>: the same three fields (the payload now a
  \<^verbatim>\<open>map[string]interface{}\<close>, nil or a decoded JSON object), then \<open>ID\<close> and
  \<open>Source\<close>.\<close>

record 'p Message2 = "'p Message" +
  ID :: string
  Source :: string

text \<open>The value of a variable \<^verbatim>\<open>msg Message\<close>, in the one revision or the other.\<close>

datatype 'p message = Base_Message "'p Message" | Verbose_Message "'p Message2"

text \<open>
  A JSON object on the wire, as far as the struct tags of the two revisions name its
  keys: the values at \<^verbatim>\<open>type\<close>, \<^verbatim>\<open>payload\<close>, \<^verbatim>\<open>time\<close>, \<^verbatim>\<open>id\<close> and
  \<^verbatim>\<open>source\<close>; \<open>None\<close> is a key that is absent (for \<^verbatim>\<open>payload\<close>: absent or
  null). The payload is held as the Go value it decodes to; how the text of a number
  maps to a \<^verbatim>\<open>float64\<close> is not part of the model.
\<close>

record 'p frame =
  type_key :: "string option"
  payload_key :: "'p option"
  time_key :: "int option"
  id_key :: "string option"
  source_key :: "string option"

text \<open>
  \<^verbatim>\<open>decoder.Decode(&msg)\<close> on a fresh \<^verbatim>\<open>var msg Message\<close>, when it succeeds: the
  fields whose key is present are set, the others keep their zero value, and keys for
  which the struct has no field are ignored. So \<open>Base\<close> drops \<^verbatim>\<open>id\<close> and
  \<^verbatim>\<open>source\<close>.
\<close>

definition unmarshal :: "revision \<Rightarrow> 'p frame \<Rightarrow> 'p message" where
  "unmarshal rv fr =
     (case rv of
        Base \<Rightarrow> Base_Message
          \<lparr>Type = (case type_key fr of None \<Rightarrow> [] | Some x \<Rightarrow> x),
           Payload = payload_key fr,
           Time = (case time_key fr of None \<Rightarrow> zero_Time | Some x \<Rightarrow> x)\<rparr>
      | Verbose \<Rightarrow> Verbose_Message
          \<lparr>Type = (case type_key fr of None \<Rightarrow> [] | Some x \<Rightarrow> x),
           Payload = payload_key fr,
           Time = (case time_key fr of None \<Rightarrow> zero_Time | Some x \<Rightarrow> x),
           ID = (case id_key fr of None \<Rightarrow> [] | Some x \<Rightarrow> x),
           Source = (case source_key fr of None \<Rightarrow> [] | Some x \<Rightarrow> x)\<rparr>)"

text \<open>\<^verbatim>\<open>msg.Time = time.Now()\<close>, with \<open>t\<close> the value of the clock.\<close>

definition set_Time :: "int \<Rightarrow> 'p message \<Rightarrow> 'p message" where
  "set_Time t msg =
     (case msg of
        Base_Message m \<Rightarrow> Base_Message (m\<lparr>Time := t\<rparr>)
      | Verbose_Message m \<Rightarrow> Verbose_Message (m\<lparr>Time := t\<rparr>))"

text \<open>What \<^verbatim>\<open>encoder.Encode(msg)\<close> writes, when it succeeds: every field of the
  struct under its key (no field is \<^verbatim>\<open>omitempty\<close>), a nil payload as null.\<close>

definition marshal :: "'p message \<Rightarrow> 'p frame" where
  "marshal msg =
     (case msg of
        Base_Message m \<Rightarrow>
          \<lparr>type_key = Some (Type m), payload_key = Payload m, time_key = Some (Time m),
           id_key = None, source_key = None\<rparr>
      | Verbose_Message m \<Rightarrow>
          \<lparr>type_key = Some (Type m), payload_key = Payload m, time_key = Some (Time m),
           id_key = Some (ID m), source_key = Some (Source m)\<rparr>)"

datatype panic =
    MakechanSizeOutOfRange
  | CloseOfClosedChannel
  | NilPointerDereference

text \<open>
  A channel of \<^verbatim>\<open>struct{}\<close>: only the number of buffered elements and the capacity
  matter. A send proceeds when the buffer is not full, a receive when it is not empty;
  \<open>None\<close> is a blocked operation. (With capacity 0 a send would need a receiver that
  is already waiting; every receive of \<open>connSem\<close> in the program follows a send by the
  same or the spawning goroutine, so there is none.)
\<close>

record chan =
  chan_len :: nat
  chan_cap :: nat

definition make_chan :: "int \<Rightarrow> panic + chan" where
  "make_chan n =
     (if n < 0 then Inl MakechanSizeOutOfRange
      else Inr \<lparr>chan_len = 0, chan_cap = nat n\<rparr>)"

definition chan_send :: "chan \<Rightarrow> chan option" where
  "chan_send ch =
     (if chan_len ch < chan_cap ch then Some (ch\<lparr>chan_len := chan_len ch + 1\<rparr>) else None)"

definition chan_recv :: "chan \<Rightarrow> chan option" where
  "chan_recv ch =
     (if 0 < chan_len ch then Some (ch\<lparr>chan_len := chan_len ch - 1\<rparr>) else None)"

datatype listener_state = NoListener | Listening | ListenerClosed

text \<open>\<^verbatim>\<open>ctx.Err()\<close>: \<open>None\<close> is nil (the context is not done).\<close>

datatype ctx_err = DeadlineExceeded | Canceled

text \<open>
  The context given to \<open>Shutdown\<close>, as it is at one moment: not done, done because
  its deadline has passed, or done because it was cancelled. \<open>ctx_Done\<close> is whether
  the channel \<^verbatim>\<open>ctx.Done()\<close> is closed.
\<close>

datatype ctx_state = NotDone | DeadlinePassed | Cancelled

definition ctx_Done :: "ctx_state \<Rightarrow> bool" where
  "ctx_Done st = (st \<noteq> NotDone)"

definition ctx_Err :: "ctx_state \<Rightarrow> ctx_err option" where
  "ctx_Err st =
     (case st of NotDone \<Rightarrow> None | DeadlinePassed \<Rightarrow> Some DeadlineExceeded
      | Cancelled \<Rightarrow> Some Canceled)"

text \<open>
  The log lines. \<open>Base\<close> writes the first six, \<open>Verbose\<close> writes
  \<open>DecodeErrorFrom\<close> and \<open>SendError\<close> in place of \<open>DecodeError\<close> and \<open>EncodeError\<close>
  and adds \<open>NewConnection\<close>, \<open>ClosedByClient\<close> and \<open>Received\<close>.
\<close>

datatype 'm log_entry =
    Started string
  | AcceptError error
  | DecodeError error
  | EncodeError error
  | ListenerCloseError error
  | ConnCloseError error
  | NewConnection conn
  | ClosedByClient conn
  | DecodeErrorFrom conn error
  | Received conn 'm
  | SendError conn error

subsection \<open>Program counters\<close>

text \<open>The goroutine of \<open>acceptConnections\<close>.\<close>

datatype apc =
    A_NotStarted
  | A_Select
  | A_Accept
  | A_AcceptErr error
  | A_Release
  | A_Go conn
  | A_Returned

text \<open>The goroutine of \<open>handleConnection\<close>, one for each accepted connection.\<close>

datatype 'm hpc =
    H_NotSpawned
  | H_Start
  | H_Decode
  | H_Now 'm
  | H_Encode 'm
  | H_DeferClose
  | H_DeferRelease
  | H_DeferRemove
  | H_Done

text \<open>The goroutine that calls \<open>Shutdown\<close>.\<close>

datatype spc =
    S_Idle
  | S_ListenerClose
  | S_Lock
  | S_Range "conn list"
  | S_Select
  | S_Returned "ctx_err option"

text \<open>
  An accepted connection: where its handler stands, whether \<^verbatim>\<open>Close\<close> has been
  called on the stream, and the stream's read and write deadlines (\<open>None\<close>: no
  deadline, as \<^verbatim>\<open>Accept\<close> returns it).
\<close>

record 'm session =
  pc :: "'m hpc"
  stream_closed :: bool
  readDeadline :: "int option"
  writeDeadline :: "int option"

text \<open>
  \<open>Server\<close> with the state of its goroutines. \<open>shutdown\<close> is whether the channel is
  closed; \<open>connMutex\<close> whether the lock is held; \<open>closeCalls\<close> and \<open>sent\<close> are
  histories: the handles \<open>Shutdown\<close> has called \<^verbatim>\<open>Close\<close> on, and the objects
  that \<^verbatim>\<open>encoder.Encode\<close> has written to each connection.
\<close>

record 'p Server =
  config :: Config
  listener :: listener_state
  connMutex :: bool
  conns :: "conn set"
  shutdown :: bool
  logger :: "'p message log_entry list"
  connSem :: chan
  acceptor :: apc
  sessions :: "'p message session list"
  caller :: spc
  panicked :: "panic option"
  closeCalls :: "conn list"
  sent :: "(conn \<times> 'p frame) list"

section \<open>Operations\<close>

definition NewServer :: "Config \<Rightarrow> panic + 'p Server" where
  "NewServer cfg =
     (case make_chan (MaxConnections cfg) of
        Inl p \<Rightarrow> Inl p
      | Inr ch \<Rightarrow> Inr \<lparr>config = cfg, listener = NoListener, connMutex = False, conns = {},
          shutdown = False, logger = [], connSem = ch, acceptor = A_NotStarted,
          sessions = [], caller = S_Idle, panicked = None, closeCalls = [], sent = []\<rparr>)"

text \<open>\<open>Start\<close>; the argument is the result of \<^verbatim>\<open>net.Listen\<close>.\<close>

definition Start :: "error option \<Rightarrow> 'p Server \<Rightarrow> error option \<times> 'p Server" where
  "Start bind s =
     (case bind of
        Some err \<Rightarrow> (Some err, s)
      | None \<Rightarrow> (None, s\<lparr>listener := Listening,
          logger := logger s @ [Started (Port (config s))], acceptor := A_Select\<rparr>))"

text \<open>
  \<^verbatim>\<open>conn.Close()\<close> on handle \<open>c\<close>: a stream that is already closed gives an error,
  an open one is closed and gives what the operating system reports (\<open>res\<close>).
\<close>

definition conn_Close ::
  "conn \<Rightarrow> error option \<Rightarrow> 'm session list \<Rightarrow> error option \<times> 'm session list" where
  "conn_Close c res ss =
     (if stream_closed (ss ! c) then (Some ''use of closed network connection'', ss)
      else (res, ss[c := (ss ! c)\<lparr>stream_closed := True\<rparr>]))"

definition set_pc :: "conn \<Rightarrow> 'm hpc \<Rightarrow> 'm session list \<Rightarrow> 'm session list" where
  "set_pc c p ss = ss[c := (ss ! c)\<lparr>pc := p\<rparr>]"

subsection \<open>acceptConnections\<close>

datatype acceptor_event =
    SelectShutdown
  | SelectAcquire
  | Accept "error option"
  | ErrSelectShutdown
  | ErrSelectDefault
  | ErrRelease
  | Go

text \<open>
  One step of the accept loop. The outer \<^verbatim>\<open>select\<close> takes either case that is
  ready; the inner one takes \<^verbatim>\<open>default\<close> only when \<open>shutdown\<close> is not closed.
  \<^verbatim>\<open>Accept\<close> returns a connection only from a listening listener.
\<close>

definition acceptor_step :: "acceptor_event \<Rightarrow> 'p Server \<Rightarrow> 'p Server option" where
  "acceptor_step ev s =
     (case ev of
        SelectShutdown \<Rightarrow>
          if acceptor s = A_Select \<and> shutdown s then Some (s\<lparr>acceptor := A_Returned\<rparr>)
          else None
      | SelectAcquire \<Rightarrow>
          if acceptor s = A_Select then
            (case chan_send (connSem s) of
               None \<Rightarrow> None
             | Some ch \<Rightarrow> Some (s\<lparr>connSem := ch, acceptor := A_Accept\<rparr>))
          else None
      | Accept None \<Rightarrow>
          if acceptor s = A_Accept \<and> listener s = Listening then
            Some (s\<lparr>sessions := sessions s @ [\<lparr>pc = H_NotSpawned, stream_closed = False,
                       readDeadline = None, writeDeadline = None\<rparr>],
                     acceptor := A_Go (length (sessions s))\<rparr>)
          else None
      | Accept (Some err) \<Rightarrow>
          if acceptor s = A_Accept then Some (s\<lparr>acceptor := A_AcceptErr err\<rparr>) else None
      | ErrSelectShutdown \<Rightarrow>
          (case acceptor s of
             A_AcceptErr err \<Rightarrow> if shutdown s then Some (s\<lparr>acceptor := A_Returned\<rparr>) else None
           | _ \<Rightarrow> None)
      | ErrSelectDefault \<Rightarrow>
          (case acceptor s of
             A_AcceptErr err \<Rightarrow>
               if shutdown s then None
               else Some (s\<lparr>logger := logger s @ [AcceptError err], acceptor := A_Release\<rparr>)
           | _ \<Rightarrow> None)
      | ErrRelease \<Rightarrow>
          if acceptor s = A_Release then
            (case chan_recv (connSem s) of
               None \<Rightarrow> None
             | Some ch \<Rightarrow> Some (s\<lparr>connSem := ch, acceptor := A_Select\<rparr>))
          else None
      | Go \<Rightarrow>
          (case acceptor s of
             A_Go c \<Rightarrow>
               if length (sessions s) \<le> c then None
               else Some (s\<lparr>sessions := set_pc c H_Start (sessions s), acceptor := A_Select\<rparr>)
           | _ \<Rightarrow> None))"

subsection \<open>handleConnection\<close>

datatype 'p handler_event =
    AddConnection
  | Decode "error + 'p frame"
  | Now int
  | Encode "error option"
  | DeferClose "error option"
  | DeferRelease
  | DeferRemove

text \<open>
  One step of the handler of connection \<open>c\<close>. \<open>addConnection\<close> and
  \<open>removeConnection\<close> take the lock, change the map and give the lock back, so they
  wait while the lock is held. \<open>Decode (Inr fr)\<close> is a \<^verbatim>\<open>Decode\<close> that succeeds
  on the object \<open>fr\<close>. A closed stream cannot be written; the decoder reads ahead, so
  \<^verbatim>\<open>Decode\<close> may still return a message that it has buffered.
\<close>

definition handler_step ::
  "revision \<Rightarrow> conn \<Rightarrow> 'p handler_event \<Rightarrow> 'p Server \<Rightarrow> 'p Server option" where
  "handler_step rv c ev s =
     (if length (sessions s) \<le> c then None
      else case ev of
        AddConnection \<Rightarrow>
          if pc (sessions s ! c) = H_Start \<and> \<not> connMutex s then
            Some (s\<lparr>conns := insert c (conns s),
                     logger := logger s @ (if rv = Verbose then [NewConnection c] else []),
                     sessions := set_pc c H_Decode (sessions s)\<rparr>)
          else None
      | Decode (Inl err) \<Rightarrow>
          if pc (sessions s ! c) = H_Decode then
            Some (s\<lparr>logger := logger s @
                       (if err \<noteq> ''EOF''
                        then [if rv = Verbose then DecodeErrorFrom c err else DecodeError err]
                        else if rv = Verbose then [ClosedByClient c] else []),
                     sessions := set_pc c H_DeferClose (sessions s)\<rparr>)
          else None
      | Decode (Inr fr) \<Rightarrow>
          if pc (sessions s ! c) = H_Decode then
            Some (s\<lparr>logger := logger s @
                       (if rv = Verbose then [Received c (unmarshal rv fr)] else []),
                     sessions := set_pc c (H_Now (unmarshal rv fr)) (sessions s)\<rparr>)
          else None
      | Now t \<Rightarrow>
          (case pc (sessions s ! c) of
             H_Now msg \<Rightarrow> Some (s\<lparr>sessions := set_pc c (H_Encode (set_Time t msg)) (sessions s)\<rparr>)
           | _ \<Rightarrow> None)
      | Encode None \<Rightarrow>
          (case pc (sessions s ! c) of
             H_Encode msg \<Rightarrow>
               if stream_closed (sessions s ! c) then None
               else Some (s\<lparr>sent := sent s @ [(c, marshal msg)],
                            sessions := set_pc c H_Decode (sessions s)\<rparr>)
           | _ \<Rightarrow> None)
      | Encode (Some err) \<Rightarrow>
          (case pc (sessions s ! c) of
             H_Encode msg \<Rightarrow>
               Some (s\<lparr>logger := logger s @
                          [if rv = Verbose then SendError c err else EncodeError err],
                        sessions := set_pc c H_DeferClose (sessions s)\<rparr>)
           | _ \<Rightarrow> None)
      | DeferClose res \<Rightarrow>
          if pc (sessions s ! c) = H_DeferClose then
            Some (s\<lparr>sessions := set_pc c H_DeferRelease (snd (conn_Close c res (sessions s)))\<rparr>)
          else None
      | DeferRelease \<Rightarrow>
          if pc (sessions s ! c) = H_DeferRelease then
            (case chan_recv (connSem s) of
               None \<Rightarrow> None
             | Some ch \<Rightarrow> Some (s\<lparr>connSem := ch,
                                  sessions := set_pc c H_DeferRemove (sessions s)\<rparr>))
          else None
      | DeferRemove \<Rightarrow>
          if pc (sessions s ! c) = H_DeferRemove \<and> \<not> connMutex s then
            Some (s\<lparr>conns := conns s - {c}, sessions := set_pc c H_Done (sessions s)\<rparr>)
          else None)"

subsection \<open>Shutdown\<close>

datatype shutdown_event =
    CloseShutdown
  | ListenerClose "error option"
  | Lock "conn list"
  | ConnClose "error option"
  | Unlock
  | CtxSelect ctx_state

text \<open>
  One step of \<open>Shutdown\<close>. \<open>CloseShutdown\<close> is the call and its first statement; a
  caller may call again once the last call has returned. \<open>Lock cs\<close> takes the lock and
  fixes the order \<open>cs\<close> in which \<^verbatim>\<open>range\<close> will visit the map, which cannot change
  while the lock is held. \<open>CtxSelect st\<close> is the last \<^verbatim>\<open>select\<close>, with \<open>st\<close> the
  context as it is at that moment.
\<close>

definition shutdown_step :: "shutdown_event \<Rightarrow> 'p Server \<Rightarrow> 'p Server option" where
  "shutdown_step ev s =
     (case ev of
        CloseShutdown \<Rightarrow>
          (case caller s of
             S_Idle \<Rightarrow>
               if shutdown s then Some (s\<lparr>panicked := Some CloseOfClosedChannel\<rparr>)
               else Some (s\<lparr>shutdown := True, caller := S_ListenerClose\<rparr>)
           | S_Returned r \<Rightarrow>
               if shutdown s then Some (s\<lparr>panicked := Some CloseOfClosedChannel\<rparr>)
               else Some (s\<lparr>shutdown := True, caller := S_ListenerClose\<rparr>)
           | _ \<Rightarrow> None)
      | ListenerClose res \<Rightarrow>
          if caller s = S_ListenerClose then
            (case listener s of
               NoListener \<Rightarrow> Some (s\<lparr>panicked := Some NilPointerDereference\<rparr>)
             | Listening \<Rightarrow>
                 Some (s\<lparr>listener := ListenerClosed,
                          logger := logger s @
                            (case res of None \<Rightarrow> [] | Some err \<Rightarrow> [ListenerCloseError err]),
                          caller := S_Lock\<rparr>)
             | ListenerClosed \<Rightarrow>
                 Some (s\<lparr>logger := logger s @
                            [ListenerCloseError ''use of closed network connection''],
                          caller := S_Lock\<rparr>))
          else None
      | Lock cs \<Rightarrow>
          if caller s = S_Lock \<and> \<not> connMutex s \<and> distinct cs \<and> set cs = conns s then
            Some (s\<lparr>connMutex := True, caller := S_Range cs\<rparr>)
          else None
      | ConnClose res \<Rightarrow>
          (case caller s of
             S_Range (c # cs) \<Rightarrow>
               if length (sessions s) \<le> c then None
               else (case conn_Close c res (sessions s) of
                  (r, ss) \<Rightarrow>
                    Some (s\<lparr>logger := logger s @
                               (case r of None \<Rightarrow> [] | Some err \<Rightarrow> [ConnCloseError err]),
                             sessions := ss, caller := S_Range cs,
                             closeCalls := closeCalls s @ [c]\<rparr>))
           | _ \<Rightarrow> None)
      | Unlock \<Rightarrow>
          if caller s = S_Range [] then Some (s\<lparr>connMutex := False, caller := S_Select\<rparr>)
          else None
      | CtxSelect st \<Rightarrow>
          if caller s = S_Select then
            Some (s\<lparr>caller := S_Returned (if ctx_Done st then ctx_Err st else None)\<rparr>)
          else None)"

subsection \<open>Executions\<close>

datatype 'p event =
    Acceptor acceptor_event
  | Handler conn "'p handler_event"
  | Caller shutdown_event

text \<open>
  One step of the whole program: one goroutine moves. \<open>None\<close> means that the step
  cannot be taken in this state (the goroutine is elsewhere, or blocked). A panic ends
  the process.
\<close>

definition step ::
  "revision \<Rightarrow> 'p event \<Rightarrow> 'p Server \<Rightarrow> 'p Server option" where
  "step rv ev s =
     (if panicked s \<noteq> None then None
      else case ev of
        Acceptor a \<Rightarrow> acceptor_step a s
      | Handler c h \<Rightarrow> handler_step rv c h s
      | Caller e \<Rightarrow> shutdown_step e s)"

fun run ::
  "revision \<Rightarrow> 'p event list \<Rightarrow> 'p Server \<Rightarrow> 'p Server option" where
  "run rv [] s = Some s"
| "run rv (ev # evs) s =
     (case step rv ev s of None \<Rightarrow> None | Some s' \<Rightarrow> run rv evs s')"


text \<open>
  The loop of \<open>Shutdown\<close> over \<open>conns\<close> as one function: the handles in the order of
  the iteration, each with what the operating system will report for its
  \<^verbatim>\<open>Close\<close>. It gives the result of every \<^verbatim>\<open>conn.Close()\<close> and the streams
  afterwards; no result ends the loop.
\<close>

fun close_all ::
  "(conn \<times> error option) list \<Rightarrow> 'm session list \<Rightarrow> error option list \<times> 'm session list" where
  "close_all [] ss = ([], ss)"
| "close_all ((c, res) # xs) ss =
     (case conn_Close c res ss of
        (r, ss') \<Rightarrow> (case close_all xs ss' of (rs, ss'') \<Rightarrow> (r # rs, ss'')))"

text \<open>The lines that the loop logs: one for each \<^verbatim>\<open>Close\<close> that gave an error.\<close>

fun close_errors :: "error option list \<Rightarrow> 'm log_entry list" where
  "close_errors [] = []"
| "close_errors (None # rs) = close_errors rs"
| "close_errors (Some err # rs) = ConnCloseError err # close_errors rs"

text \<open>
  A whole call of \<open>Shutdown\<close>, with no step of another goroutine in between: \<open>lr\<close> is
  the result of \<^verbatim>\<open>listener.Close()\<close>, \<open>cs\<close> the order of the iteration, \<open>rs\<close> the
  results of the \<^verbatim>\<open>conn.Close()\<close> calls and \<open>st\<close> the context at the last
  \<^verbatim>\<open>select\<close>.
\<close>

definition Shutdown_events ::
  "error option \<Rightarrow> conn list \<Rightarrow> error option list \<Rightarrow> ctx_state \<Rightarrow> 'p event list" where
  "Shutdown_events lr cs rs st =
     Caller CloseShutdown # Caller (ListenerClose lr) # Caller (Lock cs) #
     map (\<lambda>r. Caller (ConnClose r)) rs @ [Caller Unlock, Caller (CtxSelect st)]"

section \<open>Notions used to state the properties\<close>

text \<open>
  A handler holds the permit acquired for its connection from \<^verbatim>\<open>Accept\<close> until it
  has received from \<open>connSem\<close> in its deferred function.
\<close>

definition holds_permit :: "'m hpc \<Rightarrow> bool" where
  "holds_permit p = (case p of H_DeferRemove \<Rightarrow> False | H_Done \<Rightarrow> False | _ \<Rightarrow> True)"

definition active_sessions :: "'p Server \<Rightarrow> nat" where
  "active_sessions s = length (filter (\<lambda>x. holds_permit (pc x)) (sessions s))"

text \<open>The accept loop holds a permit between its send to \<open>connSem\<close> and what follows
  \<^verbatim>\<open>Accept\<close>: passing it to the new connection, or receiving it back.\<close>

definition acceptor_permit :: "apc \<Rightarrow> nat" where
  "acceptor_permit a =
     (case a of A_Accept \<Rightarrow> 1 | A_AcceptErr err \<Rightarrow> 1 | A_Release \<Rightarrow> 1 | _ \<Rightarrow> 0)"

text \<open>Between \<open>addConnection\<close> and \<open>removeConnection\<close> the handle is in \<open>conns\<close>.\<close>

definition registered :: "'m hpc \<Rightarrow> bool" where
  "registered p =
     (case p of H_NotSpawned \<Rightarrow> False | H_Start \<Rightarrow> False | H_Done \<Rightarrow> False | _ \<Rightarrow> True)"

text \<open>The handler has left its loop and runs, or has run, its deferred function.\<close>

definition exited :: "'m hpc \<Rightarrow> bool" where
  "exited p =
     (case p of H_DeferClose \<Rightarrow> True | H_DeferRelease \<Rightarrow> True | H_DeferRemove \<Rightarrow> True
      | H_Done \<Rightarrow> True | _ \<Rightarrow> False)"

text \<open>The deferred function has called \<^verbatim>\<open>conn.Close()\<close>.\<close>

definition past_close :: "'m hpc \<Rightarrow> bool" where
  "past_close p =
     (case p of H_DeferRelease \<Rightarrow> True | H_DeferRemove \<Rightarrow> True | H_Done \<Rightarrow> True | _ \<Rightarrow> False)"

text \<open>How many steps the accept loop is from returning, once \<open>shutdown\<close> is closed and
  the listener is closed.\<close>

definition acceptor_rank :: "apc \<Rightarrow> nat" where
  "acceptor_rank a =
     (case a of A_Returned \<Rightarrow> 0 | A_NotStarted \<Rightarrow> 0 | A_AcceptErr err \<Rightarrow> 1 | A_Accept \<Rightarrow> 2
      | A_Select \<Rightarrow> 3 | A_Release \<Rightarrow> 4 | A_Go c \<Rightarrow> 4)"

text \<open>What holds in every state of an execution of a started server.\<close>

definition inv_sem :: "'p Server \<Rightarrow> bool" where
  "inv_sem s \<longleftrightarrow>
     chan_len (connSem s) \<le> chan_cap (connSem s) \<and>
     active_sessions s + acceptor_permit (acceptor s) \<le> chan_len (connSem s) \<and>
     (\<forall>c. acceptor s = A_Go c \<longrightarrow>
        c < length (sessions s) \<and> pc (sessions s ! c) = H_NotSpawned)"

definition inv_reg :: "'p Server \<Rightarrow> bool" where
  "inv_reg s \<longleftrightarrow>
     (\<forall>c. c \<in> conns s \<longleftrightarrow> c < length (sessions s) \<and> registered (pc (sessions s ! c))) \<and>
     (\<forall>c < length (sessions s). past_close (pc (sessions s ! c)) \<longrightarrow>
        stream_closed (sessions s ! c)) \<and>
     (\<forall>x \<in> set (sessions s). readDeadline x = None \<and> writeDeadline x = None)"

definition inv_lock :: "'p Server \<Rightarrow> bool" where
  "inv_lock s \<longleftrightarrow>
     (connMutex s \<longleftrightarrow> (\<exists>cs. caller s = S_Range cs)) \<and>
     (\<forall>cs. caller s = S_Range cs \<longrightarrow> set cs \<subseteq> conns s) \<and>
     (caller s = S_Idle \<longleftrightarrow> \<not> shutdown s) \<and>
     listener s \<noteq> NoListener \<and> acceptor s \<noteq> A_NotStarted"

definition inv :: "'p Server \<Rightarrow> bool" where
  "inv s \<longleftrightarrow> inv_sem s \<and> inv_reg s \<and> inv_lock s"

text \<open>The events by which the server admits \<open>n\<close> connections, one after the other:
  acquire a permit, accept, start the handler, register the handle.\<close>

fun admit :: "nat \<Rightarrow> 'p event list" where
  "admit 0 = []"
| "admit (Suc n) =
     admit n @ [Acceptor SelectAcquire, Acceptor (Accept None), Acceptor Go,
                Handler n AddConnection]"

text \<open>The configuration that \<open>main\<close> builds for \<^verbatim>\<open>-port 8080 -max-connections 2\<close>, and
  the server that \<open>main\<close> has created and started with it.\<close>

definition example_config :: Config where
  "example_config = \<lparr>Port = ''8080'', ReadTimeout = 30000000000,
     WriteTimeout = 30000000000, MaxConnections = 2, ShutdownTimeout = 30000000000\<rparr>"

definition example_started :: "'p Server" where
  "example_started = snd (Start None (projr (NewServer example_config)))"

section \<open>Lemmas on the operations\<close>

lemma length_set_pc: "length (set_pc c p ss) = length ss"
  by (simp add: set_pc_def)

lemma pc_set_pc:
  "c < length ss \<Longrightarrow> pc (set_pc c p ss ! i) = (if i = c then p else pc (ss ! i))"
  by (simp add: set_pc_def)

lemma stream_closed_set_pc: "stream_closed (set_pc c p ss ! i) = stream_closed (ss ! i)"
  by (cases "c < length ss"; cases "i = c") (simp_all add: set_pc_def list_update_beyond)

lemma count_update:
  "c < length xs \<Longrightarrow>
   length (filter P (xs[c := y])) + (if P (xs ! c) then 1 else 0) =
   length (filter P xs) + (if P y then 1 else 0)"
proof (induction xs arbitrary: c)
  case Nil
  then show ?case by simp
next
  case (Cons x xs)
  show ?case
  proof (cases c)
    case 0
    then show ?thesis by simp
  next
    case (Suc k)
    with Cons.prems have "k < length xs" by simp
    from Cons.IH [OF this] Suc show ?thesis by simp
  qed
qed

lemma active_set_pc:
  assumes "c < length (sessions s)"
  shows "length (filter (\<lambda>x. holds_permit (pc x)) (set_pc c p (sessions s))) +
         (if holds_permit (pc (sessions s ! c)) then 1 else 0) =
         active_sessions s + (if holds_permit p then 1 else 0)"
  using count_update [OF assms, of "\<lambda>x. holds_permit (pc x)" "(sessions s ! c)\<lparr>pc := p\<rparr>"]
  by (simp add: set_pc_def active_sessions_def)

lemma length_conn_Close: "length (snd (conn_Close c r ss)) = length ss"
  by (simp add: conn_Close_def)

lemma pc_conn_Close: "pc (snd (conn_Close c r ss) ! i) = pc (ss ! i)"
  by (cases "c < length ss"; cases "i = c") (simp_all add: conn_Close_def list_update_beyond)

lemma map_pc_conn_Close: "map pc (snd (conn_Close c r ss)) = map pc ss"
  by (rule nth_equalityI) (simp_all add: length_conn_Close pc_conn_Close)

lemma stream_closed_conn_Close:
  "c < length ss \<Longrightarrow>
   stream_closed (snd (conn_Close c r ss) ! i) = (i = c \<or> stream_closed (ss ! i))"
  by (cases "i = c") (auto simp add: conn_Close_def)

lemma deadlines_set_pc:
  "\<forall>x \<in> set ss. readDeadline x = None \<and> writeDeadline x = None \<Longrightarrow>
   \<forall>x \<in> set (set_pc c p ss). readDeadline x = None \<and> writeDeadline x = None"
  by (cases "c < length ss") (auto simp add: set_pc_def set_conv_nth nth_list_update)

lemma deadlines_conn_Close:
  "\<forall>x \<in> set ss. readDeadline x = None \<and> writeDeadline x = None \<Longrightarrow>
   \<forall>x \<in> set (snd (conn_Close c r ss)). readDeadline x = None \<and> writeDeadline x = None"
  by (cases "c < length ss") (auto simp add: conn_Close_def set_conv_nth nth_list_update)

subsection \<open>The steps, one case for each statement\<close>

lemma acceptor_step_cases [consumes 1, case_names SelectShutdown SelectAcquire AcceptOk
    AcceptErr ErrSelectShutdown ErrSelectDefault ErrRelease Go]:
  assumes "acceptor_step a s = Some s'"
  obtains
    "a = SelectShutdown" "acceptor s = A_Select" "shutdown s" "s' = s\<lparr>acceptor := A_Returned\<rparr>"
  | ch where "a = SelectAcquire" "acceptor s = A_Select" "chan_send (connSem s) = Some ch"
      "s' = s\<lparr>connSem := ch, acceptor := A_Accept\<rparr>"
  | "a = Accept None" "acceptor s = A_Accept" "listener s = Listening"
      "s' = s\<lparr>sessions := sessions s @ [\<lparr>pc = H_NotSpawned, stream_closed = False,
                 readDeadline = None, writeDeadline = None\<rparr>],
               acceptor := A_Go (length (sessions s))\<rparr>"
  | err where "a = Accept (Some err)" "acceptor s = A_Accept"
      "s' = s\<lparr>acceptor := A_AcceptErr err\<rparr>"
  | err where "a = ErrSelectShutdown" "acceptor s = A_AcceptErr err" "shutdown s"
      "s' = s\<lparr>acceptor := A_Returned\<rparr>"
  | err where "a = ErrSelectDefault" "acceptor s = A_AcceptErr err" "\<not> shutdown s"
      "s' = s\<lparr>logger := logger s @ [AcceptError err], acceptor := A_Release\<rparr>"
  | ch where "a = ErrRelease" "acceptor s = A_Release" "chan_recv (connSem s) = Some ch"
      "s' = s\<lparr>connSem := ch, acceptor := A_Select\<rparr>"
  | c where "a = Go" "acceptor s = A_Go c" "c < length (sessions s)"
      "s' = s\<lparr>sessions := set_pc c H_Start (sessions s), acceptor := A_Select\<rparr>"
proof (cases a)
  case SelectShutdown
  with assms that(1) show ?thesis
    by (simp add: acceptor_step_def split: if_splits)
next
  case SelectAcquire
  with assms that(2) show ?thesis
    by (simp add: acceptor_step_def split: if_splits option.splits)
next
  case (Accept r)
  with assms that(3,4) show ?thesis
    by (cases r) (simp_all add: acceptor_step_def split: if_splits)
next
  case ErrSelectShutdown
  with assms that(5) show ?thesis
    by (simp add: acceptor_step_def split: apc.splits if_splits)
next
  case ErrSelectDefault
  with assms that(6) show ?thesis
    by (simp add: acceptor_step_def split: apc.splits if_splits)
next
  case ErrRelease
  with assms that(7) show ?thesis
    by (simp add: acceptor_step_def split: if_splits option.splits)
next
  case Go
  with assms that(8) show ?thesis
    by (simp add: acceptor_step_def split: apc.splits if_splits)
qed

lemma handler_step_cases [consumes 1, case_names AddConnection DecodeErr DecodeOk Now
    EncodeOk EncodeErr DeferClose DeferRelease DeferRemove]:
  assumes "handler_step rv c h s = Some s'"
  obtains
    "h = AddConnection" "c < length (sessions s)" "pc (sessions s ! c) = H_Start"
      "\<not> connMutex s"
      "s' = s\<lparr>conns := insert c (conns s),
               logger := logger s @ (if rv = Verbose then [NewConnection c] else []),
               sessions := set_pc c H_Decode (sessions s)\<rparr>"
  | err where "h = Decode (Inl err)" "c < length (sessions s)"
      "pc (sessions s ! c) = H_Decode"
      "s' = s\<lparr>logger := logger s @
                 (if err \<noteq> ''EOF''
                  then [if rv = Verbose then DecodeErrorFrom c err else DecodeError err]
                  else if rv = Verbose then [ClosedByClient c] else []),
               sessions := set_pc c H_DeferClose (sessions s)\<rparr>"
  | fr where "h = Decode (Inr fr)" "c < length (sessions s)"
      "pc (sessions s ! c) = H_Decode"
      "s' = s\<lparr>logger := logger s @
                 (if rv = Verbose then [Received c (unmarshal rv fr)] else []),
               sessions := set_pc c (H_Now (unmarshal rv fr)) (sessions s)\<rparr>"
  | t msg where "h = Now t" "c < length (sessions s)" "pc (sessions s ! c) = H_Now msg"
      "s' = s\<lparr>sessions := set_pc c (H_Encode (set_Time t msg)) (sessions s)\<rparr>"
  | msg where "h = Encode None" "c < length (sessions s)"
      "pc (sessions s ! c) = H_Encode msg" "\<not> stream_closed (sessions s ! c)"
      "s' = s\<lparr>sent := sent s @ [(c, marshal msg)],
               sessions := set_pc c H_Decode (sessions s)\<rparr>"
  | err msg where "h = Encode (Some err)" "c < length (sessions s)"
      "pc (sessions s ! c) = H_Encode msg"
      "s' = s\<lparr>logger := logger s @
                 [if rv = Verbose then SendError c err else EncodeError err],
               sessions := set_pc c H_DeferClose (sessions s)\<rparr>"
  | res where "h = DeferClose res" "c < length (sessions s)"
      "pc (sessions s ! c) = H_DeferClose"
      "s' = s\<lparr>sessions := set_pc c H_DeferRelease (snd (conn_Close c res (sessions s)))\<rparr>"
  | ch where "h = DeferRelease" "c < length (sessions s)"
      "pc (sessions s ! c) = H_DeferRelease" "chan_recv (connSem s) = Some ch"
      "s' = s\<lparr>connSem := ch, sessions := set_pc c H_DeferRemove (sessions s)\<rparr>"
  | "h = DeferRemove" "c < length (sessions s)" "pc (sessions s ! c) = H_DeferRemove"
      "\<not> connMutex s"
      "s' = s\<lparr>conns := conns s - {c}, sessions := set_pc c H_Done (sessions s)\<rparr>"
proof -
  from assms have c: "c < length (sessions s)"
    by (simp add: handler_step_def split: if_splits)
  show ?thesis
  proof (cases h)
    case AddConnection
    with assms c that(1) show ?thesis
      by (simp add: handler_step_def split: if_splits)
  next
    case (Decode r)
    with assms c that(2,3) show ?thesis
      by (cases r) (simp_all add: handler_step_def split: if_splits)
  next
    case (Now t)
    with assms c that(4) show ?thesis
      by (simp add: handler_step_def split: hpc.splits)
  next
    case (Encode r)
    with assms c that(5,6) show ?thesis
      by (cases r) (simp_all add: handler_step_def split: hpc.splits if_splits)
  next
    case (DeferClose res)
    with assms c that(7) show ?thesis
      by (simp add: handler_step_def split: if_splits)
  next
    case DeferRelease
    with assms c that(8) show ?thesis
      by (simp add: handler_step_def split: if_splits option.splits)
  next
    case DeferRemove
    with assms c that(9) show ?thesis
      by (simp add: handler_step_def split: if_splits)
  qed
qed

lemma shutdown_step_cases [consumes 1, case_names CloseShutdown ClosePanic ListenerNil
    ListenerClose ListenerClosedAlready Lock ConnClose Unlock CtxSelect]:
  assumes "shutdown_step e s = Some s'"
  obtains
    "e = CloseShutdown" "caller s = S_Idle \<or> (\<exists>r. caller s = S_Returned r)" "\<not> shutdown s"
      "s' = s\<lparr>shutdown := True, caller := S_ListenerClose\<rparr>"
  | "e = CloseShutdown" "caller s = S_Idle \<or> (\<exists>r. caller s = S_Returned r)" "shutdown s"
      "s' = s\<lparr>panicked := Some CloseOfClosedChannel\<rparr>"
  | res where "e = ListenerClose res" "caller s = S_ListenerClose" "listener s = NoListener"
      "s' = s\<lparr>panicked := Some NilPointerDereference\<rparr>"
  | res where "e = ListenerClose res" "caller s = S_ListenerClose" "listener s = Listening"
      "s' = s\<lparr>listener := ListenerClosed,
               logger := logger s @
                 (case res of None \<Rightarrow> [] | Some err \<Rightarrow> [ListenerCloseError err]),
               caller := S_Lock\<rparr>"
  | res where "e = ListenerClose res" "caller s = S_ListenerClose"
      "listener s = ListenerClosed"
      "s' = s\<lparr>logger := logger s @ [ListenerCloseError ''use of closed network connection''],
               caller := S_Lock\<rparr>"
  | cs where "e = Lock cs" "caller s = S_Lock" "\<not> connMutex s" "distinct cs"
      "set cs = conns s" "s' = s\<lparr>connMutex := True, caller := S_Range cs\<rparr>"
  | res c cs where "e = ConnClose res" "caller s = S_Range (c # cs)"
      "c < length (sessions s)"
      "s' = s\<lparr>logger := logger s @
                 (case fst (conn_Close c res (sessions s)) of None \<Rightarrow> []
                  | Some err \<Rightarrow> [ConnCloseError err]),
               sessions := snd (conn_Close c res (sessions s)), caller := S_Range cs,
               closeCalls := closeCalls s @ [c]\<rparr>"
  | "e = Unlock" "caller s = S_Range []" "s' = s\<lparr>connMutex := False, caller := S_Select\<rparr>"
  | st where "e = CtxSelect st" "caller s = S_Select"
      "s' = s\<lparr>caller := S_Returned (if ctx_Done st then ctx_Err st else None)\<rparr>"
proof (cases e)
  case CloseShutdown
  with assms have c: "caller s = S_Idle \<or> (\<exists>r. caller s = S_Returned r)"
    by (cases "caller s") (simp_all add: shutdown_step_def)
  show ?thesis
  proof (cases "shutdown s")
    case True
    with assms CloseShutdown c have "s' = s\<lparr>panicked := Some CloseOfClosedChannel\<rparr>"
      by (cases "caller s") (simp_all add: shutdown_step_def)
    with CloseShutdown c True show ?thesis by (rule that(2))
  next
    case False
    with assms CloseShutdown c have "s' = s\<lparr>shutdown := True, caller := S_ListenerClose\<rparr>"
      by (cases "caller s") (simp_all add: shutdown_step_def)
    with CloseShutdown c False show ?thesis by (rule that(1))
  qed
next
  case (ListenerClose res)
  with assms have c: "caller s = S_ListenerClose"
    by (simp add: shutdown_step_def split: if_splits)
  show ?thesis
  proof (cases "listener s")
    case NoListener
    with assms ListenerClose c have "s' = s\<lparr>panicked := Some NilPointerDereference\<rparr>"
      by (simp add: shutdown_step_def)
    with ListenerClose c NoListener show ?thesis by (rule that(3))
  next
    case Listening
    with assms ListenerClose c have
      "s' = s\<lparr>listener := ListenerClosed,
               logger := logger s @
                 (case res of None \<Rightarrow> [] | Some err \<Rightarrow> [ListenerCloseError err]),
               caller := S_Lock\<rparr>"
      by (simp add: shutdown_step_def)
    with ListenerClose c Listening show ?thesis by (rule that(4))
  next
    case ListenerClosed
    with assms ListenerClose c have
      "s' = s\<lparr>logger := logger s @ [ListenerCloseError ''use of closed network connection''],
               caller := S_Lock\<rparr>"
      by (simp add: shutdown_step_def)
    with ListenerClose c ListenerClosed show ?thesis by (rule that(5))
  qed
next
  case (Lock cs)
  with assms have "caller s = S_Lock" "\<not> connMutex s" "distinct cs" "set cs = conns s"
    "s' = s\<lparr>connMutex := True, caller := S_Range cs\<rparr>"
    by (simp_all add: shutdown_step_def split: if_splits)
  with Lock show ?thesis by (rule that(6))
next
  case (ConnClose res)
  with assms obtain c cs where c: "caller s = S_Range (c # cs)"
    by (cases "caller s") (auto simp add: shutdown_step_def split: list.splits)
  with assms ConnClose have l: "c < length (sessions s)"
    by (simp add: shutdown_step_def split: if_splits)
  with assms ConnClose c have
    "s' = s\<lparr>logger := logger s @
               (case fst (conn_Close c res (sessions s)) of None \<Rightarrow> []
                | Some err \<Rightarrow> [ConnCloseError err]),
             sessions := snd (conn_Close c res (sessions s)), caller := S_Range cs,
             closeCalls := closeCalls s @ [c]\<rparr>"
    by (simp add: shutdown_step_def split: prod.splits)
  with ConnClose c l show ?thesis by (rule that(7))
next
  case Unlock
  with assms have "caller s = S_Range []" "s' = s\<lparr>connMutex := False, caller := S_Select\<rparr>"
    by (simp_all add: shutdown_step_def split: if_splits)
  with Unlock show ?thesis by (rule that(8))
next
  case (CtxSelect st)
  with assms have "caller s = S_Select"
    "s' = s\<lparr>caller := S_Returned (if ctx_Done st then ctx_Err st else None)\<rparr>"
    by (simp_all add: shutdown_step_def split: if_splits)
  with CtxSelect show ?thesis by (rule that(9))
qed

lemma active_conn_Close:
  "length (filter (\<lambda>x. holds_permit (pc x)) (snd (conn_Close c r ss))) =
   length (filter (\<lambda>x. holds_permit (pc x)) ss)"
proof -
  have h: "length (filter (\<lambda>x. holds_permit (pc x)) xs) = length (filter holds_permit (map pc xs))"
    for xs :: "'a session list"
    by (induction xs) simp_all
  show ?thesis by (simp only: h map_pc_conn_Close)
qed

subsection \<open>The permits\<close>

lemma inv_sem_acceptor:
  assumes "inv_sem s" "acceptor_step a s = Some s'"
  shows "inv_sem s'"
  using assms(2)
proof (cases rule: acceptor_step_cases)
  case (SelectAcquire ch)
  with assms(1) show ?thesis
    by (auto simp: inv_sem_def active_sessions_def acceptor_permit_def chan_send_def
        split: if_splits)
next
  case AcceptOk
  with assms(1) show ?thesis
    by (auto simp: inv_sem_def active_sessions_def acceptor_permit_def holds_permit_def
        nth_append)
next
  case (ErrRelease ch)
  with assms(1) show ?thesis
    by (auto simp: inv_sem_def active_sessions_def acceptor_permit_def chan_recv_def
        split: if_splits)
next
  case (Go c)
  from assms(1) Go have nsp: "pc (sessions s ! c) = H_NotSpawned"
    by (simp add: inv_sem_def)
  from active_set_pc [OF Go(3), of H_Start] nsp
  have "length (filter (\<lambda>x. holds_permit (pc x)) (set_pc c H_Start (sessions s))) =
        active_sessions s"
    by (simp add: holds_permit_def)
  with assms(1) Go show ?thesis
    by (simp add: inv_sem_def active_sessions_def acceptor_permit_def)
qed (use assms(1) in \<open>simp_all add: inv_sem_def active_sessions_def acceptor_permit_def\<close>)

text \<open>A handler step moves one session; what it does to the permits depends only on
  whether the old and the new place hold one.\<close>

lemma inv_sem_move:
  assumes i: "inv_sem s" and c: "c < length (sessions s)"
    and old: "pc (sessions s ! c) \<noteq> H_NotSpawned"
    and keep: "holds_permit p = holds_permit (pc (sessions s ! c))"
    and s': "sessions s' = set_pc c p (sessions s)" "connSem s' = connSem s"
      "acceptor s' = acceptor s"
  shows "inv_sem s'"
proof -
  from active_set_pc [OF c, of p] keep
  have "active_sessions s' = active_sessions s"
    by (simp add: active_sessions_def s'(1) split: if_splits)
  moreover have "\<forall>k. acceptor s = A_Go k \<longrightarrow>
      k < length (sessions s') \<and> pc (sessions s' ! k) = H_NotSpawned"
    using i old c by (auto simp: inv_sem_def s'(1) length_set_pc pc_set_pc)
  ultimately show ?thesis
    using i by (simp add: inv_sem_def s')
qed

lemma inv_sem_handler:
  assumes "inv_sem s" "handler_step rv c h s = Some s'"
  shows "inv_sem s'"
  using assms(2)
proof (cases rule: handler_step_cases)
  case AddConnection
  show ?thesis
    by (rule inv_sem_move [OF assms(1) AddConnection(2), where p = H_Decode])
      (simp_all add: AddConnection holds_permit_def)
next
  case (DecodeErr err)
  show ?thesis
    by (rule inv_sem_move [OF assms(1) DecodeErr(2), where p = H_DeferClose])
      (simp_all add: DecodeErr holds_permit_def)
next
  case (DecodeOk fr)
  show ?thesis
    by (rule inv_sem_move [OF assms(1) DecodeOk(2), where p = "H_Now (unmarshal rv fr)"])
      (simp_all add: DecodeOk holds_permit_def)
next
  case (Now t msg)
  show ?thesis
    by (rule inv_sem_move [OF assms(1) Now(2), where p = "H_Encode (set_Time t msg)"])
      (simp_all add: Now holds_permit_def)
next
  case (EncodeOk msg)
  show ?thesis
    by (rule inv_sem_move [OF assms(1) EncodeOk(2), where p = H_Decode])
      (simp_all add: EncodeOk holds_permit_def)
next
  case (EncodeErr err msg)
  show ?thesis
    by (rule inv_sem_move [OF assms(1) EncodeErr(2), where p = H_DeferClose])
      (simp_all add: EncodeErr holds_permit_def)
next
  case (DeferClose res)
  let ?t = "s\<lparr>sessions := snd (conn_Close c res (sessions s))\<rparr>"
  have "inv_sem ?t"
    using assms(1)
    by (simp add: inv_sem_def active_sessions_def active_conn_Close length_conn_Close
        pc_conn_Close)
  then show ?thesis
    by (rule inv_sem_move [where c = c and p = H_DeferRelease])
      (simp_all add: DeferClose length_conn_Close pc_conn_Close holds_permit_def)
next
  case (DeferRelease ch)
  have f: "connSem s' = ch" "acceptor s' = acceptor s"
    "sessions s' = set_pc c H_DeferRemove (sessions s)"
    by (simp_all add: DeferRelease(5))
  from assms(1) have i: "chan_len (connSem s) \<le> chan_cap (connSem s)"
    "active_sessions s + acceptor_permit (acceptor s) \<le> chan_len (connSem s)"
    by (simp_all add: inv_sem_def)
  from active_set_pc [OF DeferRelease(2), of H_DeferRemove] DeferRelease(3)
  have a: "active_sessions s' + 1 = active_sessions s"
    by (simp add: active_sessions_def f holds_permit_def)
  from DeferRelease(4) have l: "chan_len ch + 1 = chan_len (connSem s)"
    "chan_cap ch = chan_cap (connSem s)"
    by (auto simp: chan_recv_def split: if_splits)
  have 1: "chan_len (connSem s') \<le> chan_cap (connSem s')"
    using i l by (simp add: f)
  have 2: "active_sessions s' + acceptor_permit (acceptor s') \<le> chan_len (connSem s')"
    using i a l by (simp add: f)
  have 3: "\<forall>k. acceptor s' = A_Go k \<longrightarrow>
      k < length (sessions s') \<and> pc (sessions s' ! k) = H_NotSpawned"
    using assms(1) DeferRelease(2,3)
    by (auto simp: inv_sem_def f length_set_pc pc_set_pc)
  from 1 2 3 show ?thesis
    unfolding inv_sem_def by blast
next
  case DeferRemove
  show ?thesis
    by (rule inv_sem_move [OF assms(1) DeferRemove(2), where p = H_Done])
      (simp_all add: DeferRemove holds_permit_def)
qed

lemma inv_sem_shutdown:
  assumes "inv_sem s" "shutdown_step e s = Some s'"
  shows "inv_sem s'"
  using assms(2)
proof (cases rule: shutdown_step_cases)
  case (ConnClose res c cs)
  with assms(1) show ?thesis
    by (simp add: inv_sem_def active_sessions_def active_conn_Close length_conn_Close
        pc_conn_Close)
qed (use assms(1) in \<open>simp_all add: inv_sem_def active_sessions_def\<close>)


subsection \<open>The registry, the streams and the deadlines\<close>

lemma inv_reg_acceptor:
  assumes "inv_reg s" "inv_sem s" "acceptor_step a s = Some s'"
  shows "inv_reg s'"
  using assms(3)
proof (cases rule: acceptor_step_cases)
  case AcceptOk
  with assms(1) show ?thesis
    by (auto simp: inv_reg_def registered_def past_close_def nth_append)
next
  case (Go c)
  from assms(2) Go have nsp: "pc (sessions s ! c) = H_NotSpawned"
    by (simp add: inv_sem_def)
  with assms(1) Go deadlines_set_pc [of "sessions s" c H_Start] show ?thesis
    by (auto simp: inv_reg_def length_set_pc pc_set_pc stream_closed_set_pc registered_def
        past_close_def)
qed (use assms(1) in \<open>simp_all add: inv_reg_def\<close>)

text \<open>A handler step moves session \<open>c\<close> to \<open>p\<close>, closes no stream but perhaps its own,
  and leaves the handle in \<open>conns\<close> exactly when \<open>p\<close> is a registered place.\<close>

lemma inv_reg_step:
  assumes i: "inv_reg s" and c: "c < length (sessions s)"
    and len: "length (sessions s') = length (sessions s)"
    and pcs: "\<And>k. k < length (sessions s) \<Longrightarrow>
      pc (sessions s' ! k) = (if k = c then p else pc (sessions s ! k))"
    and cl: "\<And>k. k < length (sessions s) \<Longrightarrow> stream_closed (sessions s ! k) \<Longrightarrow>
      stream_closed (sessions s' ! k)"
    and clc: "past_close p \<Longrightarrow> stream_closed (sessions s' ! c)"
    and dl: "\<forall>x \<in> set (sessions s'). readDeadline x = None \<and> writeDeadline x = None"
    and cn: "conns s' = (if registered p then insert c (conns s) else conns s - {c})"
  shows "inv_reg s'"
proof -
  from i have r: "\<And>k. k \<in> conns s \<longleftrightarrow>
      k < length (sessions s) \<and> registered (pc (sessions s ! k))"
    and pcl: "\<And>k. k < length (sessions s) \<Longrightarrow> past_close (pc (sessions s ! k)) \<Longrightarrow>
      stream_closed (sessions s ! k)"
    by (simp_all add: inv_reg_def)
  have 1: "k \<in> conns s' \<longleftrightarrow> k < length (sessions s') \<and> registered (pc (sessions s' ! k))"
    for k
  proof (cases "k = c")
    case True
    with c show ?thesis by (simp add: cn len pcs)
  next
    case False
    then show ?thesis
      by (cases "k < length (sessions s)") (simp_all add: cn len pcs r)
  qed
  have 2: "stream_closed (sessions s' ! k)"
    if "k < length (sessions s')" "past_close (pc (sessions s' ! k))" for k
  proof (cases "k = c")
    case True
    with that c show ?thesis by (simp add: len pcs clc)
  next
    case False
    with that have "past_close (pc (sessions s ! k))" "k < length (sessions s)"
      by (simp_all add: len pcs)
    then show ?thesis by (simp add: cl pcl)
  qed
  from 1 2 dl show ?thesis
    unfolding inv_reg_def by blast
qed

lemma inv_reg_handler:
  assumes "inv_reg s" "handler_step rv c h s = Some s'"
  shows "inv_reg s'"
  using assms(2)
proof (cases rule: handler_step_cases)
  case AddConnection
  from assms(1) have d: "\<forall>x \<in> set (sessions s). readDeadline x = None \<and> writeDeadline x = None"
    by (simp add: inv_reg_def)
  show ?thesis
    by (rule inv_reg_step [OF assms(1) AddConnection(2), where p = H_Decode])
      (simp_all add: AddConnection(5) length_set_pc pc_set_pc stream_closed_set_pc
        AddConnection(2) registered_def past_close_def deadlines_set_pc [OF d])
next
  case (DecodeErr err)
  from assms(1) have d: "\<forall>x \<in> set (sessions s). readDeadline x = None \<and> writeDeadline x = None"
    and r: "c \<in> conns s"
    by (simp_all add: inv_reg_def DecodeErr(2,3) registered_def)
  show ?thesis
    by (rule inv_reg_step [OF assms(1) DecodeErr(2), where p = H_DeferClose])
      (simp_all add: DecodeErr(4) length_set_pc pc_set_pc stream_closed_set_pc
        DecodeErr(2) registered_def past_close_def deadlines_set_pc [OF d] insert_absorb [OF r])
next
  case (DecodeOk fr)
  from assms(1) have d: "\<forall>x \<in> set (sessions s). readDeadline x = None \<and> writeDeadline x = None"
    and r: "c \<in> conns s"
    by (simp_all add: inv_reg_def DecodeOk(2,3) registered_def)
  show ?thesis
    by (rule inv_reg_step [OF assms(1) DecodeOk(2), where p = "H_Now (unmarshal rv fr)"])
      (simp_all add: DecodeOk(4) length_set_pc pc_set_pc stream_closed_set_pc
        DecodeOk(2) registered_def past_close_def deadlines_set_pc [OF d] insert_absorb [OF r])
next
  case (Now t msg)
  from assms(1) have d: "\<forall>x \<in> set (sessions s). readDeadline x = None \<and> writeDeadline x = None"
    and r: "c \<in> conns s"
    by (simp_all add: inv_reg_def Now(2,3) registered_def)
  show ?thesis
    by (rule inv_reg_step [OF assms(1) Now(2), where p = "H_Encode (set_Time t msg)"])
      (simp_all add: Now(4) length_set_pc pc_set_pc stream_closed_set_pc
        Now(2) registered_def past_close_def deadlines_set_pc [OF d] insert_absorb [OF r])
next
  case (EncodeOk msg)
  from assms(1) have d: "\<forall>x \<in> set (sessions s). readDeadline x = None \<and> writeDeadline x = None"
    and r: "c \<in> conns s"
    by (simp_all add: inv_reg_def EncodeOk(2,3) registered_def)
  show ?thesis
    by (rule inv_reg_step [OF assms(1) EncodeOk(2), where p = H_Decode])
      (simp_all add: EncodeOk(5) length_set_pc pc_set_pc stream_closed_set_pc
        EncodeOk(2) registered_def past_close_def deadlines_set_pc [OF d] insert_absorb [OF r])
next
  case (EncodeErr err msg)
  from assms(1) have d: "\<forall>x \<in> set (sessions s). readDeadline x = None \<and> writeDeadline x = None"
    and r: "c \<in> conns s"
    by (simp_all add: inv_reg_def EncodeErr(2,3) registered_def)
  show ?thesis
    by (rule inv_reg_step [OF assms(1) EncodeErr(2), where p = H_DeferClose])
      (simp_all add: EncodeErr(4) length_set_pc pc_set_pc stream_closed_set_pc
        EncodeErr(2) registered_def past_close_def deadlines_set_pc [OF d] insert_absorb [OF r])
next
  case (DeferClose res)
  from assms(1) have d: "\<forall>x \<in> set (sessions s). readDeadline x = None \<and> writeDeadline x = None"
    and r: "c \<in> conns s"
    by (simp_all add: inv_reg_def DeferClose(2,3) registered_def)
  show ?thesis
    by (rule inv_reg_step [OF assms(1) DeferClose(2), where p = H_DeferRelease])
      (simp_all add: DeferClose(4) length_set_pc pc_set_pc stream_closed_set_pc
        length_conn_Close pc_conn_Close stream_closed_conn_Close
        DeferClose(2) registered_def deadlines_set_pc [OF deadlines_conn_Close [OF d]]
        insert_absorb [OF r])
next
  case (DeferRelease ch)
  from assms(1) have d: "\<forall>x \<in> set (sessions s). readDeadline x = None \<and> writeDeadline x = None"
    and r: "c \<in> conns s" and cl: "stream_closed (sessions s ! c)"
    by (simp_all add: inv_reg_def DeferRelease(2,3) registered_def past_close_def)
  show ?thesis
    by (rule inv_reg_step [OF assms(1) DeferRelease(2), where p = H_DeferRemove])
      (simp_all add: DeferRelease(5) length_set_pc pc_set_pc stream_closed_set_pc cl
        DeferRelease(2) registered_def deadlines_set_pc [OF d] insert_absorb [OF r])
next
  case DeferRemove
  from assms(1) have d: "\<forall>x \<in> set (sessions s). readDeadline x = None \<and> writeDeadline x = None"
    and cl: "stream_closed (sessions s ! c)"
    by (simp_all add: inv_reg_def DeferRemove(2,3) past_close_def)
  show ?thesis
    by (rule inv_reg_step [OF assms(1) DeferRemove(2), where p = H_Done])
      (simp_all add: DeferRemove(5) length_set_pc pc_set_pc stream_closed_set_pc cl
        DeferRemove(2) registered_def deadlines_set_pc [OF d])
qed


lemma inv_reg_shutdown:
  assumes "inv_reg s" "shutdown_step e s = Some s'"
  shows "inv_reg s'"
  using assms(2)
proof (cases rule: shutdown_step_cases)
  case (ConnClose res c cs)
  with assms(1) deadlines_conn_Close [of "sessions s" c res] show ?thesis
    by (auto simp: inv_reg_def length_conn_Close pc_conn_Close stream_closed_conn_Close)
qed (use assms(1) in \<open>simp_all add: inv_reg_def\<close>)

subsection \<open>The lock and the caller of Shutdown\<close>

lemma inv_lock_acceptor:
  assumes "inv_lock s" "acceptor_step a s = Some s'"
  shows "inv_lock s'"
  using assms(2)
  by (cases rule: acceptor_step_cases) (use assms(1) in \<open>simp_all add: inv_lock_def\<close>)

lemma inv_lock_handler:
  assumes "inv_lock s" "handler_step rv c h s = Some s'"
  shows "inv_lock s'"
  using assms(2)
  by (cases rule: handler_step_cases) (use assms(1) in \<open>auto simp add: inv_lock_def\<close>)

lemma inv_lock_shutdown:
  assumes "inv_lock s" "shutdown_step e s = Some s'"
  shows "inv_lock s'"
  using assms(2)
  by (cases rule: shutdown_step_cases) (use assms(1) in \<open>auto simp add: inv_lock_def\<close>)


subsection \<open>Executions keep the invariant\<close>

lemma inv_step:
  assumes "inv s" "step rv ev s = Some s'"
  shows "inv s'"
proof (cases ev)
  case (Acceptor a)
  with assms(2) have "acceptor_step a s = Some s'"
    by (simp add: step_def split: if_splits)
  with assms(1) show ?thesis
    unfolding inv_def by (blast intro: inv_sem_acceptor inv_reg_acceptor inv_lock_acceptor)
next
  case (Handler c h)
  with assms(2) have "handler_step rv c h s = Some s'"
    by (simp add: step_def split: if_splits)
  with assms(1) show ?thesis
    unfolding inv_def by (blast intro: inv_sem_handler inv_reg_handler inv_lock_handler)
next
  case (Caller e)
  with assms(2) have "shutdown_step e s = Some s'"
    by (simp add: step_def split: if_splits)
  with assms(1) show ?thesis
    unfolding inv_def by (blast intro: inv_sem_shutdown inv_reg_shutdown inv_lock_shutdown)
qed

lemma run_append:
  "run rv (xs @ ys) s = (case run rv xs s of None \<Rightarrow> None | Some s' \<Rightarrow> run rv ys s')"
  by (induction xs arbitrary: s) (simp_all split: option.splits)

lemma inv_run:
  assumes "inv s" "run rv evs s = Some s'"
  shows "inv s'"
  using assms
proof (induction evs arbitrary: s)
  case Nil
  then show ?case by simp
next
  case (Cons ev evs)
  from Cons.prems(2) obtain t where t: "step rv ev s = Some t" "run rv evs t = Some s'"
    by (auto split: option.splits)
  from inv_step [OF Cons.prems(1) t(1)] t(2) show ?case
    by (rule Cons.IH)
qed

text \<open>No step changes the configuration or the capacity of \<open>connSem\<close>.\<close>

lemma step_config:
  assumes "step rv ev s = Some s'"
  shows "config s' = config s \<and> chan_cap (connSem s') = chan_cap (connSem s)"
proof (cases ev)
  case (Acceptor a)
  with assms have "acceptor_step a s = Some s'"
    by (simp add: step_def split: if_splits)
  then show ?thesis
    by (cases rule: acceptor_step_cases)
      (auto simp: chan_send_def chan_recv_def split: if_splits)
next
  case (Handler c h)
  with assms have "handler_step rv c h s = Some s'"
    by (simp add: step_def split: if_splits)
  then show ?thesis
    by (cases rule: handler_step_cases) (auto simp: chan_recv_def split: if_splits)
next
  case (Caller e)
  with assms have "shutdown_step e s = Some s'"
    by (simp add: step_def split: if_splits)
  then show ?thesis
    by (cases rule: shutdown_step_cases) simp_all
qed

lemma run_config:
  assumes "run rv evs s = Some s'"
  shows "config s' = config s \<and> chan_cap (connSem s') = chan_cap (connSem s)"
  using assms
proof (induction evs arbitrary: s)
  case Nil
  then show ?case by simp
next
  case (Cons ev evs)
  from Cons.prems obtain t where t: "step rv ev s = Some t" "run rv evs t = Some s'"
    by (auto split: option.splits)
  from step_config [OF t(1)] Cons.IH [OF t(2)] show ?case by simp
qed

text \<open>The state in which \<open>main\<close> leaves a server that it has created and started.\<close>

lemma started:
  assumes "NewServer cfg = Inr s0" "Start None s0 = (None, s1)"
  shows "s1 = \<lparr>config = cfg, listener = Listening, connMutex = False, conns = {},
           shutdown = False, logger = [Started (Port cfg)],
           connSem = \<lparr>chan_len = 0, chan_cap = nat (MaxConnections cfg)\<rparr>,
           acceptor = A_Select, sessions = [], caller = S_Idle, panicked = None,
           closeCalls = [], sent = []\<rparr>"
  using assms
  by (auto simp: NewServer_def Start_def make_chan_def split: if_splits)

lemma inv_started:
  assumes "NewServer cfg = Inr s0" "Start None s0 = (None, s1)"
  shows "inv s1"
  unfolding started [OF assms]
  by (simp add: inv_def inv_sem_def inv_reg_def inv_lock_def active_sessions_def
      acceptor_permit_def)


section \<open>Admission\<close>

lemma admit_run:
  assumes "acceptor s = A_Select" "listener s = Listening" "\<not> connMutex s"
    "panicked s = None" "sessions s = []" "chan_len (connSem s) = 0" "conns s = {}"
    "n \<le> chan_cap (connSem s)"
  shows "\<exists>s'. run rv (admit n) s = Some s' \<and> acceptor s' = A_Select \<and>
    listener s' = Listening \<and> \<not> connMutex s' \<and> panicked s' = None \<and>
    length (sessions s') = n \<and> (\<forall>x \<in> set (sessions s'). pc x = H_Decode) \<and>
    chan_len (connSem s') = n \<and> chan_cap (connSem s') = chan_cap (connSem s) \<and>
    conns s' = {..<n}"
  using assms(8)
proof (induction n)
  case 0
  with assms show ?case by simp
next
  case (Suc n)
  then obtain t where t: "run rv (admit n) s = Some t" "acceptor t = A_Select"
    "listener t = Listening" "\<not> connMutex t" "panicked t = None"
    "length (sessions t) = n" "\<forall>x \<in> set (sessions t). pc x = H_Decode"
    "chan_len (connSem t) = n" "chan_cap (connSem t) = chan_cap (connSem s)"
    "conns t = {..<n}"
    by auto
  from Suc.prems have lt: "n < chan_cap (connSem s)" by simp
  have "\<exists>s'. run rv [Acceptor SelectAcquire, Acceptor (Accept None), Acceptor Go,
      Handler n AddConnection] t = Some s' \<and> acceptor s' = A_Select \<and>
    listener s' = Listening \<and> \<not> connMutex s' \<and> panicked s' = None \<and>
    length (sessions s') = Suc n \<and> (\<forall>x \<in> set (sessions s'). pc x = H_Decode) \<and>
    chan_len (connSem s') = Suc n \<and> chan_cap (connSem s') = chan_cap (connSem s) \<and>
    conns s' = {..<Suc n}"
    using t(2-10) lt
    by (simp add: step_def acceptor_step_def handler_step_def chan_send_def set_pc_def
        nth_append list_update_append lessThan_Suc)
  with t(1) show ?case
    by (simp add: run_append)
qed

lemma active_all:
  "\<forall>x \<in> set ss. holds_permit (pc x) \<Longrightarrow>
   length (filter (\<lambda>x. holds_permit (pc x)) ss) = length ss"
  by (induction ss) simp_all

lemma release_only:
  assumes "step rv ev s = Some s'" "chan_len (connSem s') < chan_len (connSem s)"
  shows "(\<exists>c. ev = Handler c DeferRelease) \<or> ev = Acceptor ErrRelease"
proof (cases ev)
  case (Acceptor a)
  with assms(1) have "acceptor_step a s = Some s'"
    by (simp add: step_def split: if_splits)
  then show ?thesis
    using assms(2) Acceptor
    by (cases rule: acceptor_step_cases) (auto simp: chan_send_def split: if_splits)
next
  case (Handler c h)
  with assms(1) have "handler_step rv c h s = Some s'"
    by (simp add: step_def split: if_splits)
  then show ?thesis
    using assms(2) Handler
    by (cases rule: handler_step_cases) auto
next
  case (Caller e)
  with assms(1) have "shutdown_step e s = Some s'"
    by (simp add: step_def split: if_splits)
  then show ?thesis
    using assms(2)
    by (cases rule: shutdown_step_cases) auto
qed

text \<open>
  C1. In every execution of a server created with \<open>MaxConnections cfg\<close> and started, the
  number of permits held (the elements buffered in \<open>connSem\<close>) is at most
  \<open>MaxConnections cfg\<close>, and the sessions that hold a permit are at most that many. For
  every \<open>n\<close> up to the capacity, the server can admit \<open>n\<close> connections that are all
  active at once. When the capacity is used up, the accept loop cannot acquire a permit;
  when the active sessions alone use it up, the accept loop cannot be accepting either,
  and the only step that frees a permit is the release in the deferred function of one of
  the handlers.
\<close>

theorem admission_gate_bound:
  assumes "NewServer cfg = Inr s0" and "Start None s0 = (None, s1)"
    and "run rv evs s1 = Some s"
  shows "chan_len (connSem s) \<le> nat (MaxConnections cfg) \<and>
    active_sessions s \<le> chan_len (connSem s) \<and>
    (\<forall>n \<le> nat (MaxConnections cfg). \<exists>s'. run rv (admit n) s1 = Some s' \<and>
       active_sessions s' = n \<and> conns s' = {..<n}) \<and>
    (chan_len (connSem s) = nat (MaxConnections cfg) \<longrightarrow>
       step rv (Acceptor SelectAcquire) s = None) \<and>
    (active_sessions s = nat (MaxConnections cfg) \<longrightarrow>
       (\<forall>r. step rv (Acceptor (Accept r)) s = None) \<and>
       (\<forall>ev s'. step rv ev s = Some s' \<longrightarrow> chan_len (connSem s') < chan_len (connSem s) \<longrightarrow>
          (\<exists>c. ev = Handler c DeferRelease)))"
proof -
  note s1 = started [OF assms(1,2)]
  have cap: "chan_cap (connSem s) = nat (MaxConnections cfg)"
    using run_config [OF assms(3)] by (simp add: s1)
  from inv_run [OF inv_started [OF assms(1,2)] assms(3)] have i: "inv_sem s"
    by (simp add: inv_def)
  then have 1: "chan_len (connSem s) \<le> nat (MaxConnections cfg)"
    and 2: "active_sessions s + acceptor_permit (acceptor s) \<le> chan_len (connSem s)"
    by (simp_all add: inv_sem_def cap)
  have 3: "\<exists>s'. run rv (admit n) s1 = Some s' \<and> active_sessions s' = n \<and> conns s' = {..<n}"
    if "n \<le> nat (MaxConnections cfg)" for n
  proof -
    from that have "n \<le> chan_cap (connSem s1)" by (simp add: s1)
    from admit_run [of s1 n rv, OF _ _ _ _ _ _ _ this]
    obtain s' where s': "run rv (admit n) s1 = Some s'" "length (sessions s') = n"
      "\<forall>x \<in> set (sessions s'). pc x = H_Decode" "conns s' = {..<n}"
      by (auto simp: s1)
    from s'(3) have "\<forall>x \<in> set (sessions s'). holds_permit (pc x)"
      by (simp add: holds_permit_def)
    from active_all [OF this] s'(2) have "active_sessions s' = n"
      by (simp add: active_sessions_def)
    with s'(1,4) show ?thesis by blast
  qed
  have 4: "step rv (Acceptor SelectAcquire) s = None"
    if "chan_len (connSem s) = nat (MaxConnections cfg)"
    using that cap by (simp add: step_def acceptor_step_def chan_send_def)
  have 5: "step rv (Acceptor (Accept r)) s = None"
    if "active_sessions s = nat (MaxConnections cfg)" for r
  proof -
    from that 1 2 have "acceptor_permit (acceptor s) = 0" by simp
    then have "acceptor s \<noteq> A_Accept" by (auto simp: acceptor_permit_def)
    then show ?thesis
      by (cases r) (simp_all add: step_def acceptor_step_def)
  qed
  have 6: "\<exists>c. ev = Handler c DeferRelease"
    if "active_sessions s = nat (MaxConnections cfg)" "step rv ev s = Some s'"
      "chan_len (connSem s') < chan_len (connSem s)" for ev s'
  proof -
    from that(1) 1 2 have "acceptor_permit (acceptor s) = 0" by simp
    then have "acceptor s \<noteq> A_Release" by (auto simp: acceptor_permit_def)
    then have "ev \<noteq> Acceptor ErrRelease"
      using that(2) by (auto simp: step_def acceptor_step_def split: if_splits)
    with release_only [OF that(2,3)] show ?thesis by simp
  qed
  from 1 2 3 4 5 6 show ?thesis by (simp (no_asm_simp))
qed

theorem admission_gate_bound_witness:
  "run Base (admit 2) (example_started :: nat Server) \<noteq> None \<and>
   chan_len (connSem (the (run Base (admit 2) (example_started :: nat Server)))) \<le> 2 \<and>
   step Base (Acceptor SelectAcquire)
     (the (run Base (admit 2) (example_started :: nat Server))) = None"
proof -
  have h1: "NewServer example_config =
      Inr (projr (NewServer example_config) :: nat Server)"
    by (simp add: NewServer_def make_chan_def example_config_def)
  have h2: "Start None (projr (NewServer example_config) :: nat Server) =
      (None, example_started)"
    by (simp add: Start_def example_started_def)
  have h0: "run Base (admit 2) (example_started :: nat Server) \<noteq> None"
    by (simp add: example_started_def example_config_def NewServer_def Start_def
        make_chan_def numeral_2_eq_2 step_def acceptor_step_def handler_step_def
        chan_send_def set_pc_def)
  then have h3: "run Base (admit 2) (example_started :: nat Server) =
      Some (the (run Base (admit 2) example_started))"
    by auto
  have h4: "chan_len (connSem (the (run Base (admit 2)
      (example_started :: nat Server)))) = nat (MaxConnections example_config)"
    by (simp add: example_started_def example_config_def NewServer_def Start_def
        make_chan_def numeral_2_eq_2 step_def acceptor_step_def handler_step_def
        chan_send_def set_pc_def)
  from admission_gate_bound [OF h1 h2 h3] h0 h4 show ?thesis
    by (simp add: example_config_def)
qed


section \<open>Shutdown and the accept loop\<close>

lemma step_after_shutdown:
  assumes "shutdown s" "listener s = ListenerClosed" "step rv ev s = Some s'"
  shows "length (sessions s') = length (sessions s) \<and> shutdown s' \<and>
    listener s' = ListenerClosed"
proof (cases ev)
  case (Acceptor a)
  with assms(3) have "acceptor_step a s = Some s'"
    by (simp add: step_def split: if_splits)
  then show ?thesis
    using assms(1,2)
    by (cases rule: acceptor_step_cases) (simp_all add: length_set_pc)
next
  case (Handler c h)
  with assms(3) have "handler_step rv c h s = Some s'"
    by (simp add: step_def split: if_splits)
  then show ?thesis
    using assms(1,2)
    by (cases rule: handler_step_cases) (simp_all add: length_set_pc length_conn_Close)
next
  case (Caller e)
  with assms(3) have "shutdown_step e s = Some s'"
    by (simp add: step_def split: if_splits)
  then show ?thesis
    using assms(1,2)
    by (cases rule: shutdown_step_cases) (simp_all add: length_conn_Close)
qed

lemma run_after_shutdown:
  assumes "shutdown s" "listener s = ListenerClosed" "run rv evs s = Some s'"
  shows "length (sessions s') = length (sessions s) \<and> shutdown s' \<and>
    listener s' = ListenerClosed"
  using assms
proof (induction evs arbitrary: s)
  case Nil
  then show ?case by simp
next
  case (Cons ev evs)
  from Cons.prems(3) obtain t where t: "step rv ev s = Some t" "run rv evs t = Some s'"
    by (auto split: option.splits)
  from step_after_shutdown [OF Cons.prems(1,2) t(1)] Cons.IH [OF _ _ t(2)]
  show ?case by simp
qed

lemma acceptor_winds_down:
  assumes "shutdown s" "listener s = ListenerClosed" "step rv (Acceptor a) s = Some s'"
  shows "a \<noteq> Accept None \<and> acceptor_rank (acceptor s') < acceptor_rank (acceptor s)"
proof -
  from assms(3) have "acceptor_step a s = Some s'"
    by (simp add: step_def split: if_splits)
  then show ?thesis
    using assms(1,2)
    by (cases rule: acceptor_step_cases) (simp_all add: acceptor_rank_def)
qed

lemma acceptor_not_blocked:
  assumes "inv s" "shutdown s" "panicked s = None" "acceptor s \<noteq> A_Returned"
  shows "\<exists>a. step rv (Acceptor a) s \<noteq> None"
proof (cases "acceptor s")
  case A_NotStarted
  with assms(1) show ?thesis by (simp add: inv_def inv_lock_def)
next
  case A_Select
  with assms(2,3) have "step rv (Acceptor SelectShutdown) s \<noteq> None"
    by (simp add: step_def acceptor_step_def)
  then show ?thesis ..
next
  case A_Accept
  with assms(3) have "step rv (Acceptor (Accept (Some ''use of closed network connection''))) s
      \<noteq> None"
    by (simp add: step_def acceptor_step_def)
  then show ?thesis ..
next
  case (A_AcceptErr err)
  with assms(2,3) have "step rv (Acceptor ErrSelectShutdown) s \<noteq> None"
    by (simp add: step_def acceptor_step_def)
  then show ?thesis ..
next
  case A_Release
  with assms(1) have "0 < chan_len (connSem s)"
    by (simp add: inv_def inv_sem_def acceptor_permit_def)
  with A_Release assms(3) have "step rv (Acceptor ErrRelease) s \<noteq> None"
    by (simp add: step_def acceptor_step_def chan_recv_def)
  then show ?thesis ..
next
  case (A_Go c)
  with assms(1) have "c < length (sessions s)"
    by (simp add: inv_def inv_sem_def)
  with A_Go assms(3) have "step rv (Acceptor Go) s \<noteq> None"
    by (simp add: step_def acceptor_step_def)
  then show ?thesis ..
next
  case A_Returned
  with assms(4) show ?thesis by simp
qed

text \<open>
  C2. Take any state of an execution of a started server in which \<open>shutdown\<close> is closed
  and the listener is closed. From there on no execution accepts a connection (the
  sessions stay as many as they are), and the signal and the closed listener stay. Every
  step of the accept loop brings it nearer to its return and none accepts: the outer
  \<^verbatim>\<open>select\<close> returns or acquires, \<^verbatim>\<open>Accept\<close> then fails, and the inner
  \<^verbatim>\<open>select\<close> then returns. Until it has returned the loop always has a step to take.
\<close>

theorem no_accept_after_shutdown:
  assumes "NewServer cfg = Inr s0" and "Start None s0 = (None, s1)"
    and "run rv evs s1 = Some s"
    and "shutdown s" and "listener s = ListenerClosed" and "panicked s = None"
  shows "(\<forall>evs' s'. run rv evs' s = Some s' \<longrightarrow>
       length (sessions s') = length (sessions s) \<and> shutdown s' \<and>
       listener s' = ListenerClosed) \<and>
    (\<forall>a s'. step rv (Acceptor a) s = Some s' \<longrightarrow>
       a \<noteq> Accept None \<and> acceptor_rank (acceptor s') < acceptor_rank (acceptor s)) \<and>
    (acceptor s \<noteq> A_Returned \<longrightarrow> (\<exists>a. step rv (Acceptor a) s \<noteq> None))"
proof -
  from inv_run [OF inv_started [OF assms(1,2)] assms(3)] have i: "inv s" .
  from run_after_shutdown [OF assms(4,5)] acceptor_winds_down [OF assms(4,5)]
    acceptor_not_blocked [OF i assms(4,6)]
  show ?thesis by blast
qed

theorem no_accept_after_shutdown_witness:
  "run Base [Acceptor SelectAcquire, Caller CloseShutdown, Caller (ListenerClose None)]
     (example_started :: nat Server) \<noteq> None \<and>
   step Base (Acceptor (Accept None))
     (the (run Base [Acceptor SelectAcquire, Caller CloseShutdown, Caller (ListenerClose None)]
        (example_started :: nat Server))) = None \<and>
   step Base (Acceptor (Accept (Some ''use of closed network connection'')))
     (the (run Base [Acceptor SelectAcquire, Caller CloseShutdown, Caller (ListenerClose None)]
        (example_started :: nat Server))) \<noteq> None"
proof -
  let ?evs = "[Acceptor SelectAcquire, Caller CloseShutdown, Caller (ListenerClose None)]
    :: nat event list"
  let ?s = "the (run Base ?evs example_started) :: nat Server"
  note defs = example_started_def example_config_def NewServer_def Start_def make_chan_def
    step_def acceptor_step_def shutdown_step_def chan_send_def
  have h1: "NewServer example_config =
      Inr (projr (NewServer example_config) :: nat Server)"
    by (simp add: NewServer_def make_chan_def example_config_def)
  have h2: "Start None (projr (NewServer example_config) :: nat Server) =
      (None, example_started)"
    by (simp add: Start_def example_started_def)
  have h0: "run Base ?evs example_started \<noteq> None"
    by (simp add: defs)
  then have h3: "run Base ?evs example_started = Some ?s"
    by auto
  have h4: "shutdown ?s" and h5: "listener ?s = ListenerClosed" and h6: "panicked ?s = None"
    and h7: "acceptor ?s = A_Accept"
    by (simp_all add: defs)
  from no_accept_after_shutdown [OF h1 h2 h3 h4 h5 h6]
  have "\<forall>a s'. step Base (Acceptor a) ?s = Some s' \<longrightarrow> a \<noteq> Accept None"
    by blast
  then have "step Base (Acceptor (Accept None)) ?s = None"
    by (cases "step Base (Acceptor (Accept None)) ?s") auto
  moreover have "step Base (Acceptor (Accept (Some ''use of closed network connection''))) ?s
      \<noteq> None"
    using h6 h7 by (simp add: step_def acceptor_step_def)
  ultimately show ?thesis
    using h0 by simp
qed


section \<open>The session handler\<close>

text \<open>The steps of the other goroutines leave a running handler where it is.\<close>

lemma others_keep_pc:
  assumes "inv_sem s" "step rv ev s = Some s'" "\<forall>h. ev \<noteq> Handler c h"
    "c < length (sessions s)" "pc (sessions s ! c) \<noteq> H_NotSpawned"
  shows "c < length (sessions s') \<and> pc (sessions s' ! c) = pc (sessions s ! c)"
proof (cases ev)
  case (Acceptor a)
  with assms(2) have "acceptor_step a s = Some s'"
    by (simp add: step_def split: if_splits)
  then show ?thesis
  proof (cases rule: acceptor_step_cases)
    case (Go k)
    with assms(1,5) have "k \<noteq> c" by (auto simp: inv_sem_def)
    with Go assms(4) show ?thesis by (simp add: length_set_pc pc_set_pc)
  qed (use assms(4) in \<open>simp_all add: nth_append\<close>)
next
  case (Handler k h)
  with assms(3) have k: "k \<noteq> c" by auto
  from Handler assms(2) have "handler_step rv k h s = Some s'"
    by (simp add: step_def split: if_splits)
  then show ?thesis
    using assms(4) k
    by (cases rule: handler_step_cases)
      (simp_all add: length_set_pc pc_set_pc length_conn_Close pc_conn_Close)
next
  case (Caller e)
  with assms(2) have "shutdown_step e s = Some s'"
    by (simp add: step_def split: if_splits)
  then show ?thesis
    using assms(4)
    by (cases rule: shutdown_step_cases) (simp_all add: length_conn_Close pc_conn_Close)
qed





lemma active_pos:
  assumes "c < length (sessions s)" "holds_permit (pc (sessions s ! c))"
  shows "0 < active_sessions s"
proof -
  from assms have "sessions s ! c \<in> set (filter (\<lambda>x. holds_permit (pc x)) (sessions s))"
    by simp
  then have "filter (\<lambda>x. holds_permit (pc x)) (sessions s) \<noteq> []"
    by (metis empty_iff empty_set)
  then show ?thesis by (simp add: active_sessions_def)
qed

lemma release_enabled:
  assumes "inv s" "panicked s = None" "c < length (sessions s)"
    "pc (sessions s ! c) = H_DeferRelease"
  shows "0 < chan_len (connSem s) \<and> step rv (Handler c DeferRelease) s \<noteq> None"
proof -
  from active_pos [OF assms(3)] assms(4) have "0 < active_sessions s"
    by (simp add: holds_permit_def)
  with assms(1) have "0 < chan_len (connSem s)"
    by (simp add: inv_def inv_sem_def)
  with assms(2,3,4) show ?thesis
    by (simp add: step_def handler_step_def chan_recv_def)
qed

lemma deferred_run:
  assumes "inv s" "panicked s = None" "c < length (sessions s)"
    "pc (sessions s ! c) = H_DeferClose" "\<not> connMutex s"
  shows "\<exists>s'. run rv [Handler c (DeferClose r), Handler c DeferRelease,
      Handler c DeferRemove] s = Some s' \<and>
    pc (sessions s' ! c) = H_Done \<and> stream_closed (sessions s' ! c) \<and> c \<notin> conns s' \<and>
    chan_len (connSem s') + 1 = chan_len (connSem s)"
proof -
  from active_pos [OF assms(3)] assms(4) have "0 < active_sessions s"
    by (simp add: holds_permit_def)
  with assms(1) have "0 < chan_len (connSem s)"
    by (simp add: inv_def inv_sem_def)
  with assms(2-5) show ?thesis
    by (simp add: step_def handler_step_def chan_recv_def length_set_pc pc_set_pc
        length_conn_Close stream_closed_set_pc stream_closed_conn_Close)
qed

lemma handler_exit:
  assumes "step rv (Handler c h) s = Some s'" "c < length (sessions s)"
  shows "(pc (sessions s ! c) = H_Start \<longrightarrow> h = AddConnection \<and> c \<in> conns s') \<and>
    (\<not> exited (pc (sessions s ! c)) \<and> exited (pc (sessions s' ! c)) \<longrightarrow>
       pc (sessions s' ! c) = H_DeferClose)"
proof -
  from assms(1) have "handler_step rv c h s = Some s'"
    by (simp add: step_def split: if_splits)
  then show ?thesis
    by (cases rule: handler_step_cases)
      (simp_all add: pc_set_pc length_conn_Close exited_def)
qed

text \<open>
  C4. In every state of an execution of a started server, for every accepted connection
  \<open>c\<close>: the handle is in \<open>conns\<close> exactly from \<open>addConnection\<close>, the first step of the
  handler, until \<open>removeConnection\<close>; a handler that is done has closed its stream and
  its handle is not in \<open>conns\<close>. The handler leaves its loop only into the first
  statement of its deferred function, and it does so on every decode error (end of
  stream, malformed input, a read from a stream closed by \<open>Shutdown\<close>) and on every
  encode error; on a closed stream encoding can only fail. The deferred function is
  never blocked on the permit, and run with the lock free it closes the stream, gives
  back one permit and removes the handle.
\<close>

theorem handler_cleans_up:
  assumes "NewServer cfg = Inr s0" and "Start None s0 = (None, s1)"
    and "run rv evs s1 = Some s" and "c < length (sessions s)"
  shows "(c \<in> conns s \<longleftrightarrow> registered (pc (sessions s ! c))) \<and>
    (past_close (pc (sessions s ! c)) \<longrightarrow> stream_closed (sessions s ! c)) \<and>
    (pc (sessions s ! c) = H_Done \<longrightarrow> c \<notin> conns s \<and> stream_closed (sessions s ! c)) \<and>
    (\<forall>h s'. step rv (Handler c h) s = Some s' \<longrightarrow>
       (pc (sessions s ! c) = H_Start \<longrightarrow> h = AddConnection \<and> c \<in> conns s') \<and>
       (\<not> exited (pc (sessions s ! c)) \<and> exited (pc (sessions s' ! c)) \<longrightarrow>
          pc (sessions s' ! c) = H_DeferClose)) \<and>
    (stream_closed (sessions s ! c) \<longrightarrow> step rv (Handler c (Encode None)) s = None) \<and>
    (panicked s = None \<longrightarrow>
       (pc (sessions s ! c) = H_Decode \<longrightarrow>
          (\<forall>e. \<exists>s'. step rv (Handler c (Decode (Inl e))) s = Some s' \<and>
             pc (sessions s' ! c) = H_DeferClose)) \<and>
       (\<forall>m. pc (sessions s ! c) = H_Encode m \<longrightarrow>
          (\<forall>e. \<exists>s'. step rv (Handler c (Encode (Some e))) s = Some s' \<and>
             pc (sessions s' ! c) = H_DeferClose)) \<and>
       (pc (sessions s ! c) = H_DeferRelease \<longrightarrow>
          step rv (Handler c DeferRelease) s \<noteq> None) \<and>
       (pc (sessions s ! c) = H_DeferClose \<and> \<not> connMutex s \<longrightarrow>
          (\<forall>r. \<exists>s'. run rv [Handler c (DeferClose r), Handler c DeferRelease,
               Handler c DeferRemove] s = Some s' \<and>
             pc (sessions s' ! c) = H_Done \<and> stream_closed (sessions s' ! c) \<and>
             c \<notin> conns s' \<and> chan_len (connSem s') + 1 = chan_len (connSem s))))"
proof -
  from inv_run [OF inv_started [OF assms(1,2)] assms(3)] have i: "inv s" .
  then have r: "inv_reg s" by (simp add: inv_def)
  from r assms(4) have 1: "c \<in> conns s \<longleftrightarrow> registered (pc (sessions s ! c))"
    by (simp add: inv_reg_def)
  from r assms(4) have 2: "past_close (pc (sessions s ! c)) \<longrightarrow> stream_closed (sessions s ! c)"
    by (simp add: inv_reg_def)
  from 1 2 have 3: "pc (sessions s ! c) = H_Done \<longrightarrow>
      c \<notin> conns s \<and> stream_closed (sessions s ! c)"
    by (simp add: registered_def past_close_def)
  have 4: "\<forall>h s'. step rv (Handler c h) s = Some s' \<longrightarrow>
       (pc (sessions s ! c) = H_Start \<longrightarrow> h = AddConnection \<and> c \<in> conns s') \<and>
       (\<not> exited (pc (sessions s ! c)) \<and> exited (pc (sessions s' ! c)) \<longrightarrow>
          pc (sessions s' ! c) = H_DeferClose)"
    using handler_exit [OF _ assms(4)] by blast
  have 5: "stream_closed (sessions s ! c) \<longrightarrow> step rv (Handler c (Encode None)) s = None"
    by (simp add: step_def handler_step_def split: hpc.splits)
  have 6: "\<exists>s'. step rv (Handler c (Decode (Inl e))) s = Some s' \<and>
      pc (sessions s' ! c) = H_DeferClose"
    if "panicked s = None" "pc (sessions s ! c) = H_Decode" for e
    using that assms(4) by (simp add: step_def handler_step_def pc_set_pc)
  have 7: "\<exists>s'. step rv (Handler c (Encode (Some e))) s = Some s' \<and>
      pc (sessions s' ! c) = H_DeferClose"
    if "panicked s = None" "pc (sessions s ! c) = H_Encode m" for e m
    using that assms(4) by (simp add: step_def handler_step_def pc_set_pc)
  have 8: "step rv (Handler c DeferRelease) s \<noteq> None"
    if "panicked s = None" "pc (sessions s ! c) = H_DeferRelease"
    using release_enabled [OF i that(1) assms(4) that(2)] by simp
  have 9: "\<exists>s'. run rv [Handler c (DeferClose r), Handler c DeferRelease,
        Handler c DeferRemove] s = Some s' \<and>
      pc (sessions s' ! c) = H_Done \<and> stream_closed (sessions s' ! c) \<and>
      c \<notin> conns s' \<and> chan_len (connSem s') + 1 = chan_len (connSem s)"
    if "panicked s = None" "pc (sessions s ! c) = H_DeferClose" "\<not> connMutex s" for r
    using deferred_run [OF i that(1) assms(4) that(2,3)] .
  from 6 7 8 9 have 10: "panicked s = None \<longrightarrow>
       (pc (sessions s ! c) = H_Decode \<longrightarrow>
          (\<forall>e. \<exists>s'. step rv (Handler c (Decode (Inl e))) s = Some s' \<and>
             pc (sessions s' ! c) = H_DeferClose)) \<and>
       (\<forall>m. pc (sessions s ! c) = H_Encode m \<longrightarrow>
          (\<forall>e. \<exists>s'. step rv (Handler c (Encode (Some e))) s = Some s' \<and>
             pc (sessions s' ! c) = H_DeferClose)) \<and>
       (pc (sessions s ! c) = H_DeferRelease \<longrightarrow>
          step rv (Handler c DeferRelease) s \<noteq> None) \<and>
       (pc (sessions s ! c) = H_DeferClose \<and> \<not> connMutex s \<longrightarrow>
          (\<forall>r. \<exists>s'. run rv [Handler c (DeferClose r), Handler c DeferRelease,
               Handler c DeferRemove] s = Some s' \<and>
             pc (sessions s' ! c) = H_Done \<and> stream_closed (sessions s' ! c) \<and>
             c \<notin> conns s' \<and> chan_len (connSem s') + 1 = chan_len (connSem s)))"
    by blast
  from 1 2 3 4 5 10 show ?thesis by (intro conjI)
qed

theorem handler_cleans_up_witness:
  "run Base
     [Acceptor SelectAcquire, Acceptor (Accept None), Acceptor Go, Handler 0 AddConnection,
      Caller CloseShutdown, Caller (ListenerClose None), Caller (Lock [0]),
      Caller (ConnClose None), Caller Unlock,
      Handler 0 (Decode (Inl ''use of closed network connection'')),
      Handler 0 (DeferClose (Some ''use of closed network connection'')),
      Handler 0 DeferRelease, Handler 0 DeferRemove]
     (example_started :: nat Server) \<noteq> None \<and>
   0 \<notin> conns (the (run Base
     [Acceptor SelectAcquire, Acceptor (Accept None), Acceptor Go, Handler 0 AddConnection,
      Caller CloseShutdown, Caller (ListenerClose None), Caller (Lock [0]),
      Caller (ConnClose None), Caller Unlock,
      Handler 0 (Decode (Inl ''use of closed network connection'')),
      Handler 0 (DeferClose (Some ''use of closed network connection'')),
      Handler 0 DeferRelease, Handler 0 DeferRemove]
     (example_started :: nat Server))) \<and>
   stream_closed (sessions (the (run Base
     [Acceptor SelectAcquire, Acceptor (Accept None), Acceptor Go, Handler 0 AddConnection,
      Caller CloseShutdown, Caller (ListenerClose None), Caller (Lock [0]),
      Caller (ConnClose None), Caller Unlock,
      Handler 0 (Decode (Inl ''use of closed network connection'')),
      Handler 0 (DeferClose (Some ''use of closed network connection'')),
      Handler 0 DeferRelease, Handler 0 DeferRemove]
     (example_started :: nat Server))) ! 0)"
proof -
  let ?evs = "[Acceptor SelectAcquire, Acceptor (Accept None), Acceptor Go,
      Handler 0 AddConnection,
      Caller CloseShutdown, Caller (ListenerClose None), Caller (Lock [0]),
      Caller (ConnClose None), Caller Unlock,
      Handler 0 (Decode (Inl ''use of closed network connection'')),
      Handler 0 (DeferClose (Some ''use of closed network connection'')),
      Handler 0 DeferRelease, Handler 0 DeferRemove] :: nat event list"
  let ?s = "the (run Base ?evs example_started) :: nat Server"
  note defs = example_started_def example_config_def NewServer_def Start_def make_chan_def
    step_def acceptor_step_def handler_step_def shutdown_step_def chan_send_def chan_recv_def
    set_pc_def conn_Close_def
  have h1: "NewServer example_config =
      Inr (projr (NewServer example_config) :: nat Server)"
    by (simp add: NewServer_def make_chan_def example_config_def)
  have h2: "Start None (projr (NewServer example_config) :: nat Server) =
      (None, example_started)"
    by (simp add: Start_def example_started_def)
  have h0: "run Base ?evs example_started \<noteq> None"
    by (simp add: defs)
  then have h3: "run Base ?evs example_started = Some ?s"
    by auto
  have h4: "0 < length (sessions ?s)" and h5: "pc (sessions ?s ! 0) = H_Done"
    by (simp_all add: defs)
  from handler_cleans_up [OF h1 h2 h3 h4] h5
  have "0 \<notin> conns ?s \<and> stream_closed (sessions ?s ! 0)"
    by blast
  with h0 show ?thesis by simp
qed


section \<open>Shutdown\<close>

lemma close_all_Cons:
  "close_all ((c, res) # xs) ss =
     (fst (conn_Close c res ss) # fst (close_all xs (snd (conn_Close c res ss))),
      snd (close_all xs (snd (conn_Close c res ss))))"
  by (simp split: prod.splits)

lemma length_close_all:
  "length (fst (close_all xs ss)) = length xs \<and> length (snd (close_all xs ss)) = length ss"
proof (induction xs arbitrary: ss)
  case Nil
  then show ?case by simp
next
  case (Cons x xs)
  obtain c res where x: "x = (c, res)" by (cases x)
  from Cons.IH [of "snd (conn_Close c res ss)"] show ?case
    by (simp only: x close_all_Cons fst_conv snd_conv length_conn_Close list.size)
qed

lemma pc_close_all: "map pc (snd (close_all xs ss)) = map pc ss"
proof (induction xs arbitrary: ss)
  case Nil
  then show ?case by simp
next
  case (Cons x xs)
  obtain c res where x: "x = (c, res)" by (cases x)
  from Cons.IH [of "snd (conn_Close c res ss)"] show ?case
    by (simp only: x close_all_Cons snd_conv map_pc_conn_Close)
qed

lemma closed_close_all:
  assumes "\<forall>x \<in> set xs. fst x < length ss" "k < length ss"
  shows "stream_closed (snd (close_all xs ss) ! k) \<longleftrightarrow>
    k \<in> fst ` set xs \<or> stream_closed (ss ! k)"
  using assms
proof (induction xs arbitrary: ss)
  case Nil
  then show ?case by simp
next
  case (Cons x xs)
  obtain c res where x: "x = (c, res)" by (cases x)
  from Cons.prems x have c: "c < length ss" by simp
  let ?ss = "snd (conn_Close c res ss)"
  from Cons.prems have "\<forall>x \<in> set xs. fst x < length ?ss" "k < length ?ss"
    by (simp_all add: length_conn_Close)
  from Cons.IH [OF this] have
    "stream_closed (snd (close_all xs ?ss) ! k) \<longleftrightarrow>
     k \<in> fst ` set xs \<or> stream_closed (?ss ! k)" .
  with stream_closed_conn_Close [OF c, of res k] show ?case
    by (simp only: x close_all_Cons snd_conv) auto
qed

text \<open>The loop, step by step, does what \<open>close_all\<close> says.\<close>

lemma close_loop:
  assumes "caller s = S_Range cs" "panicked s = None" "\<forall>c \<in> set cs. c < length (sessions s)"
    "length rs = length cs"
  shows "run rv (map (\<lambda>r. Caller (ConnClose r)) rs) s =
    Some (s\<lparr>logger := logger s @ close_errors (fst (close_all (zip cs rs) (sessions s))),
            sessions := snd (close_all (zip cs rs) (sessions s)),
            caller := S_Range [],
            closeCalls := closeCalls s @ cs\<rparr>)"
  using assms
proof (induction cs arbitrary: rs s)
  case Nil
  then show ?case by simp
next
  case (Cons c cs)
  from Cons.prems(4) obtain r rs' where rs: "rs = r # rs'" "length rs' = length cs"
    by (cases rs) auto
  let ?r = "fst (conn_Close c r (sessions s))"
  let ?ss = "snd (conn_Close c r (sessions s))"
  let ?t = "s\<lparr>logger := logger s @ close_errors [?r],
    sessions := ?ss, caller := S_Range cs, closeCalls := closeCalls s @ [c]\<rparr>"
  from Cons.prems(1,2,3) have st: "step rv (Caller (ConnClose r)) s = Some ?t"
    by (cases ?r) (simp_all add: step_def shutdown_step_def case_prod_beta)
  have ih: "run rv (map (\<lambda>r. Caller (ConnClose r)) rs') ?t =
    Some (?t\<lparr>logger := logger ?t @ close_errors (fst (close_all (zip cs rs') (sessions ?t))),
            sessions := snd (close_all (zip cs rs') (sessions ?t)),
            caller := S_Range [],
            closeCalls := closeCalls ?t @ cs\<rparr>)"
    using Cons.prems(2,3) rs(2)
    by (intro Cons.IH) (simp_all add: length_conn_Close)
  have app: "logger s @ close_errors [?r] @ close_errors (fst (close_all (zip cs rs') ?ss)) =
    logger s @ close_errors (?r # fst (close_all (zip cs rs') ?ss))"
    by (cases ?r) simp_all
  have "run rv (map (\<lambda>r. Caller (ConnClose r)) rs) s =
    run rv (map (\<lambda>r. Caller (ConnClose r)) rs') ?t"
    using st by (simp add: rs)
  also note ih
  finally show ?case
    by (simp add: rs close_all_Cons app del: close_all.simps close_errors.simps)
qed

lemma close_errors_length:
  "length (close_errors rs :: 'm log_entry list) = length (filter (\<lambda>r. r \<noteq> None) rs)"
  by (induction rs rule: close_errors.induct) simp_all

lemma ctx_ret: "(if ctx_Done st then ctx_Err st else None) = ctx_Err st"
  by (cases st) (simp_all add: ctx_Done_def ctx_Err_def)

lemma shutdown_run:
  assumes "inv s" "panicked s = None" "caller s = S_Idle \<or> (\<exists>r. caller s = S_Returned r)"
    "\<not> shutdown s" "distinct cs" "set cs = conns s" "length rs = length cs"
  shows "run rv (Shutdown_events lr cs rs st) s =
    Some (s\<lparr>listener := ListenerClosed, connMutex := False, shutdown := True,
      logger := logger s @
        (case (if listener s = Listening then lr
               else Some ''use of closed network connection'') of
           None \<Rightarrow> [] | Some err \<Rightarrow> [ListenerCloseError err]) @
        close_errors (fst (close_all (zip cs rs) (sessions s))),
      sessions := snd (close_all (zip cs rs) (sessions s)),
      caller := S_Returned (ctx_Err st), closeCalls := closeCalls s @ cs\<rparr>)"
proof -
  from assms(1) have l: "listener s \<noteq> NoListener" and m: "\<not> connMutex s"
    and v: "\<forall>c \<in> set cs. c < length (sessions s)"
    using assms(3,6) by (auto simp: inv_def inv_lock_def inv_reg_def)
  let ?lg = "logger s @
        (case (if listener s = Listening then lr
               else Some ''use of closed network connection'') of
           None \<Rightarrow> [] | Some err \<Rightarrow> [ListenerCloseError err])"
  let ?t = "s\<lparr>listener := ListenerClosed, connMutex := True, shutdown := True,
    logger := ?lg, caller := S_Range cs\<rparr>"
  have 1: "run rv [Caller CloseShutdown, Caller (ListenerClose lr), Caller (Lock cs)] s =
      Some ?t"
    using assms(2-6) l m
    by (cases "listener s")
      (auto simp add: step_def shutdown_step_def split: spc.splits)
  have 2: "run rv (map (\<lambda>r. Caller (ConnClose r)) rs) ?t =
    Some (?t\<lparr>logger := logger ?t @ close_errors (fst (close_all (zip cs rs) (sessions ?t))),
            sessions := snd (close_all (zip cs rs) (sessions ?t)),
            caller := S_Range [],
            closeCalls := closeCalls ?t @ cs\<rparr>)"
    using assms(2,7) v by (intro close_loop) simp_all
  let ?u = "?t\<lparr>logger := logger ?t @ close_errors (fst (close_all (zip cs rs) (sessions ?t))),
            sessions := snd (close_all (zip cs rs) (sessions ?t)),
            caller := S_Range [],
            closeCalls := closeCalls ?t @ cs\<rparr>"
  have 3: "run rv [Caller Unlock, Caller (CtxSelect st)] ?u =
    Some (s\<lparr>listener := ListenerClosed, connMutex := False, shutdown := True,
      logger := ?lg @ close_errors (fst (close_all (zip cs rs) (sessions s))),
      sessions := snd (close_all (zip cs rs) (sessions s)),
      caller := S_Returned (ctx_Err st), closeCalls := closeCalls s @ cs\<rparr>)"
    using assms(2) by (simp add: step_def shutdown_step_def ctx_ret)
  have "run rv ([Caller CloseShutdown, Caller (ListenerClose lr), Caller (Lock cs)] @
      map (\<lambda>r. Caller (ConnClose r)) rs @ [Caller Unlock, Caller (CtxSelect st)]) s =
    run rv [Caller Unlock, Caller (CtxSelect st)] ?u"
    by (simp only: run_append 1 2 option.case)
  with 3 have "run rv ([Caller CloseShutdown, Caller (ListenerClose lr), Caller (Lock cs)] @
      map (\<lambda>r. Caller (ConnClose r)) rs @ [Caller Unlock, Caller (CtxSelect st)]) s =
    Some (s\<lparr>listener := ListenerClosed, connMutex := False, shutdown := True,
      logger := ?lg @ close_errors (fst (close_all (zip cs rs) (sessions s))),
      sessions := snd (close_all (zip cs rs) (sessions s)),
      caller := S_Returned (ctx_Err st), closeCalls := closeCalls s @ cs\<rparr>)"
    by (simp only:)
  then show ?thesis
    by (simp add: Shutdown_events_def)
qed

lemma run_append_Some:
  "run rv xs s = Some t \<Longrightarrow> run rv (xs @ ys) s = run rv ys t"
  by (simp add: run_append)

lemma result_conn_Close:
  "fst (conn_Close c r ss) =
     (if stream_closed (ss ! c) then Some ''use of closed network connection'' else r)"
  by (simp add: conn_Close_def)

lemma results_close_all:
  assumes "distinct cs" "length rs = length cs" "\<forall>c \<in> set cs. c < length ss" "i < length cs"
  shows "fst (close_all (zip cs rs) ss) ! i = fst (conn_Close (cs ! i) (rs ! i) ss)"
  using assms
proof (induction cs arbitrary: rs ss i)
  case Nil
  then show ?case by simp
next
  case (Cons c cs)
  from Cons.prems(2) obtain r rs' where rs: "rs = r # rs'" "length rs' = length cs"
    by (cases rs) auto
  let ?ss = "snd (conn_Close c r ss)"
  show ?case
  proof (cases i)
    case 0
    then show ?thesis by (simp only: rs zip_Cons_Cons close_all_Cons fst_conv nth_Cons_0)
  next
    case (Suc j)
    with Cons.prems(4) have j: "j < length cs" by simp
    from Cons.prems(1) j have ne: "cs ! j \<noteq> c" by auto
    from Cons.prems(3) have c: "c < length ss" by simp
    from Cons.prems(1,3) rs(2) j
    have "fst (close_all (zip cs rs') ?ss) ! j = fst (conn_Close (cs ! j) (rs' ! j) ?ss)"
      by (intro Cons.IH) (simp_all add: length_conn_Close)
    also have "\<dots> = fst (conn_Close (cs ! j) (rs' ! j) ss)"
      using stream_closed_conn_Close [OF c, of r "cs ! j"] ne
      by (simp add: result_conn_Close)
    finally show ?thesis
      by (simp only: rs Suc zip_Cons_Cons close_all_Cons fst_conv nth_Cons_Suc)
  qed
qed

lemma step_keeps_shutdown:
  assumes "shutdown s" "step rv ev s = Some s'"
  shows "shutdown s'"
proof (cases ev)
  case (Acceptor a)
  with assms(2) have "acceptor_step a s = Some s'"
    by (simp add: step_def split: if_splits)
  then show ?thesis
    using assms(1) by (cases rule: acceptor_step_cases) simp_all
next
  case (Handler c h)
  with assms(2) have "handler_step rv c h s = Some s'"
    by (simp add: step_def split: if_splits)
  then show ?thesis
    using assms(1) by (cases rule: handler_step_cases) simp_all
next
  case (Caller e)
  with assms(2) have "shutdown_step e s = Some s'"
    by (simp add: step_def split: if_splits)
  then show ?thesis
    using assms(1) by (cases rule: shutdown_step_cases) simp_all
qed

lemma run_keeps_shutdown:
  assumes "shutdown s" "run rv evs s = Some s'"
  shows "shutdown s'"
  using assms
proof (induction evs arbitrary: s)
  case Nil
  then show ?case by simp
next
  case (Cons ev evs)
  from Cons.prems(2) obtain t where t: "step rv ev s = Some t" "run rv evs t = Some s'"
    by (auto split: option.splits)
  from step_keeps_shutdown [OF Cons.prems(1) t(1)] t(2) show ?case
    by (rule Cons.IH)
qed

text \<open>
  C5, as the code has it. Let \<open>Shutdown\<close> be called on a started server, with \<open>cs\<close>
  the handles of \<open>conns\<close> in the order in which the loop visits them. Then the call
  runs to its end, it has called \<^verbatim>\<open>Close\<close> on every handle of \<open>conns\<close>, in that order
  and whatever the results, every such stream is closed, and each result is that of
  \<^verbatim>\<open>Close\<close> on the stream as it was. For every \<^verbatim>\<open>Close\<close> that failed there is one
  line in the log, after the line for the listener. The failures are not returned:
  what \<open>Shutdown\<close> returns is \<^verbatim>\<open>ctx.Err()\<close>, for the context \<open>st\<close> as it is at
  the last \<^verbatim>\<open>select\<close>.
\<close>

theorem shutdown_closes_all_and_logs:
  assumes "NewServer cfg = Inr s0" and "Start None s0 = (None, s1)"
    and "run rv evs s1 = Some s" and "panicked s = None" and "caller s = S_Idle"
    and "distinct cs" and "set cs = conns s" and "length rs = length cs"
  shows "\<exists>s'. run rv (Shutdown_events lr cs rs st) s = Some s' \<and>
    closeCalls s' = closeCalls s @ cs \<and> length cs = card (conns s) \<and>
    (\<forall>c \<in> conns s. stream_closed (sessions s' ! c)) \<and>
    (\<forall>i < length cs. fst (close_all (zip cs rs) (sessions s)) ! i =
       fst (conn_Close (cs ! i) (rs ! i) (sessions s))) \<and>
    length (fst (close_all (zip cs rs) (sessions s))) = length cs \<and>
    logger s' = logger s @
      (case (if listener s = Listening then lr
             else Some ''use of closed network connection'') of
         None \<Rightarrow> [] | Some err \<Rightarrow> [ListenerCloseError err]) @
      close_errors (fst (close_all (zip cs rs) (sessions s))) \<and>
    length (close_errors (fst (close_all (zip cs rs) (sessions s))) :: 'p message log_entry list) =
      length (filter (\<lambda>r. r \<noteq> None) (fst (close_all (zip cs rs) (sessions s)))) \<and>
    caller s' = S_Returned (ctx_Err st)"
proof -
  from inv_run [OF inv_started [OF assms(1,2)] assms(3)] have i: "inv s" .
  with assms(5) have ns: "\<not> shutdown s" by (simp add: inv_def inv_lock_def)
  from i assms(7) have v: "\<forall>c \<in> set cs. c < length (sessions s)"
    by (auto simp: inv_def inv_reg_def)
  then have v': "\<forall>x \<in> set (zip cs rs). fst x < length (sessions s)"
    by (auto dest: set_zip_leftD)
  from assms(8) have z: "fst ` set (zip cs rs) = set cs"
    by (metis map_fst_zip set_map)
  note r = shutdown_run [OF i assms(4) disjI1 [OF assms(5)] ns assms(6,7,8), of rv lr st]
  have 1: "length cs = card (conns s)"
    using assms(6,7) distinct_card by fastforce
  have 2: "\<forall>c \<in> conns s. stream_closed (snd (close_all (zip cs rs) (sessions s)) ! c)"
    using closed_close_all [OF v'] v z assms(7) by auto
  have 3: "\<forall>i < length cs. fst (close_all (zip cs rs) (sessions s)) ! i =
       fst (conn_Close (cs ! i) (rs ! i) (sessions s))"
    using results_close_all [OF assms(6,8) v] by blast
  have 4: "length (fst (close_all (zip cs rs) (sessions s))) = length cs"
    using assms(8) by (simp add: length_close_all)
  show ?thesis
    unfolding r using 1 2 3 4 by (simp add: close_errors_length)
qed

theorem shutdown_closes_all_and_logs_witness:
  "run Base (admit 2 @ Shutdown_events None [1, 0] [Some ''bad file descriptor'', None] NotDone)
     (example_started :: nat Server) \<noteq> None \<and>
   closeCalls (the (run Base
     (admit 2 @ Shutdown_events None [1, 0] [Some ''bad file descriptor'', None] NotDone)
     (example_started :: nat Server))) = [1, 0] \<and>
   logger (the (run Base
     (admit 2 @ Shutdown_events None [1, 0] [Some ''bad file descriptor'', None] NotDone)
     (example_started :: nat Server))) =
     [Started ''8080'', ConnCloseError ''bad file descriptor'']"
proof -
  let ?s = "the (run Base (admit 2) example_started) :: nat Server"
  let ?sh = "Shutdown_events None [1, 0] [Some ''bad file descriptor'', None] NotDone
    :: nat event list"
  note defs = example_started_def example_config_def NewServer_def Start_def make_chan_def
    numeral_2_eq_2 step_def acceptor_step_def handler_step_def chan_send_def set_pc_def
  have h1: "NewServer example_config =
      Inr (projr (NewServer example_config) :: nat Server)"
    by (simp add: NewServer_def make_chan_def example_config_def)
  have h2: "Start None (projr (NewServer example_config) :: nat Server) =
      (None, example_started)"
    by (simp add: Start_def example_started_def)
  have h0: "run Base (admit 2) (example_started :: nat Server) \<noteq> None"
    by (simp add: defs)
  then have h3: "run Base (admit 2) example_started = Some ?s"
    by auto
  have h4: "panicked ?s = None" and h5: "caller ?s = S_Idle"
    and h7: "set [1, 0] = conns ?s" and l: "listener ?s = Listening"
    and lg: "logger ?s = [Started ''8080'']" and cc: "closeCalls ?s = []"
    and ss: "sessions ?s = [\<lparr>pc = H_Decode, stream_closed = False, readDeadline = None,
        writeDeadline = None\<rparr>, \<lparr>pc = H_Decode, stream_closed = False, readDeadline = None,
        writeDeadline = None\<rparr>]"
    by (simp_all add: defs)
  have h6: "distinct [1, 0 :: nat]" by simp
  have h8: "length [Some ''bad file descriptor'', None] = length [1, 0 :: nat]" by simp
  from shutdown_closes_all_and_logs [OF h1 h2 h3 h4 h5 h6 h7 h8, of None NotDone]
  obtain s' where s': "run Base ?sh ?s = Some s'" "closeCalls s' = [1, 0]"
    "logger s' = [Started ''8080'', ConnCloseError ''bad file descriptor'']"
    by (auto simp add: l lg cc ss conn_Close_def ctx_Err_def)
  from run_append_Some [OF h3, of ?sh] s'(1)
  have "run Base (admit 2 @ ?sh) example_started = Some s'"
    by (simp only:)
  with s'(2,3) show ?thesis by simp
qed

text \<open>
  C5 as the specification states it fails: one connection is open, its \<^verbatim>\<open>Close\<close>
  fails in the loop of \<open>Shutdown\<close>, the failure is logged, and \<open>Shutdown\<close> returns nil.
\<close>

theorem shutdown_close_failures_not_returned_counterexample:
  "run Base (admit 1 @ Shutdown_events None [0] [Some ''bad file descriptor''] NotDone)
     (example_started :: nat Server) \<noteq> None \<and>
   logger (the (run Base (admit 1 @ Shutdown_events None [0] [Some ''bad file descriptor''] NotDone)
     (example_started :: nat Server))) =
     [Started ''8080'', ConnCloseError ''bad file descriptor''] \<and>
   caller (the (run Base (admit 1 @ Shutdown_events None [0] [Some ''bad file descriptor''] NotDone)
     (example_started :: nat Server))) = S_Returned None"
  by (simp add: example_started_def example_config_def NewServer_def Start_def make_chan_def
      Shutdown_events_def step_def acceptor_step_def handler_step_def shutdown_step_def
      chan_send_def set_pc_def conn_Close_def ctx_Done_def ctx_Err_def)

text \<open>
  C6. Let \<open>Shutdown\<close> be called on a started server, whatever its handlers are doing,
  with \<open>cs\<close> the handles of \<open>conns\<close> in the order of the loop. Then the steps of
  \<open>Shutdown\<close> alone, with no step of any handler or of the accept loop, take the call
  to its return. When it returns it has fired the signal, closed the listener, called
  \<^verbatim>\<open>Close\<close> on every registered handle (every such stream is closed) and given
  the lock back. It returns nil when the context is not done at the last
  \<^verbatim>\<open>select\<close>, \<open>DeadlineExceeded\<close> when its deadline has passed, and
  \<^verbatim>\<open>ctx.Err()\<close> in every case. Every handler and the accept loop are where they were:
  no handler has finished because of the call, and the handles are still registered.
\<close>

theorem shutdown_returns_without_waiting:
  assumes "NewServer cfg = Inr s0" and "Start None s0 = (None, s1)"
    and "run rv evs s1 = Some s" and "panicked s = None" and "caller s = S_Idle"
    and "distinct cs" and "set cs = conns s" and "length rs = length cs"
  shows "\<exists>s'. run rv (Shutdown_events lr cs rs st) s = Some s' \<and>
    shutdown s' \<and> listener s' = ListenerClosed \<and>
    closeCalls s' = closeCalls s @ cs \<and>
    (\<forall>c \<in> conns s. stream_closed (sessions s' ! c)) \<and>
    \<not> connMutex s' \<and>
    caller s' = S_Returned (ctx_Err st) \<and>
    (st = NotDone \<longrightarrow> caller s' = S_Returned None) \<and>
    (st = DeadlinePassed \<longrightarrow> caller s' = S_Returned (Some DeadlineExceeded)) \<and>
    map pc (sessions s') = map pc (sessions s) \<and> conns s' = conns s \<and>
    acceptor s' = acceptor s \<and> connSem s' = connSem s \<and> panicked s' = None \<and>
    (\<forall>ev \<in> set (Shutdown_events lr cs rs st :: 'p event list). \<exists>x. ev = Caller x)"
proof -
  from inv_run [OF inv_started [OF assms(1,2)] assms(3)] have i: "inv s" .
  with assms(5) have ns: "\<not> shutdown s" by (simp add: inv_def inv_lock_def)
  from i assms(7) have v: "\<forall>c \<in> set cs. c < length (sessions s)"
    by (auto simp: inv_def inv_reg_def)
  then have v': "\<forall>x \<in> set (zip cs rs). fst x < length (sessions s)"
    by (auto dest: set_zip_leftD)
  from assms(8) have z: "fst ` set (zip cs rs) = set cs"
    by (metis map_fst_zip set_map)
  note r = shutdown_run [OF i assms(4) disjI1 [OF assms(5)] ns assms(6,7,8), of rv lr st]
  have 1: "\<forall>c \<in> conns s. stream_closed (snd (close_all (zip cs rs) (sessions s)) ! c)"
    using closed_close_all [OF v'] v z assms(7) by auto
  have 2: "\<forall>ev \<in> set (Shutdown_events lr cs rs st :: 'p event list). \<exists>x. ev = Caller x"
    by (auto simp: Shutdown_events_def)
  have 3: "(st = NotDone \<longrightarrow> ctx_Err st = None) \<and>
    (st = DeadlinePassed \<longrightarrow> ctx_Err st = Some DeadlineExceeded)"
    by (simp add: ctx_Err_def)
  show ?thesis
    unfolding r using 1 2 3 assms(4) by (simp add: pc_close_all)
qed

theorem shutdown_returns_without_waiting_witness:
  "run Base (admit 1 @ Shutdown_events None [0] [None] DeadlinePassed)
     (example_started :: nat Server) \<noteq> None \<and>
   caller (the (run Base (admit 1 @ Shutdown_events None [0] [None] DeadlinePassed)
     (example_started :: nat Server))) = S_Returned (Some DeadlineExceeded) \<and>
   closeCalls (the (run Base (admit 1 @ Shutdown_events None [0] [None] DeadlinePassed)
     (example_started :: nat Server))) = [0] \<and>
   map pc (sessions (the (run Base
     (admit 1 @ Shutdown_events None [0] [None] DeadlinePassed)
     (example_started :: nat Server)))) = [H_Decode]"
proof -
  let ?s = "the (run Base (admit 1) example_started) :: nat Server"
  let ?sh = "Shutdown_events None [0] [None] DeadlinePassed :: nat event list"
  note defs = example_started_def example_config_def NewServer_def Start_def make_chan_def
    step_def acceptor_step_def handler_step_def chan_send_def set_pc_def
  have h1: "NewServer example_config =
      Inr (projr (NewServer example_config) :: nat Server)"
    by (simp add: NewServer_def make_chan_def example_config_def)
  have h2: "Start None (projr (NewServer example_config) :: nat Server) =
      (None, example_started)"
    by (simp add: Start_def example_started_def)
  have h0: "run Base (admit 1) (example_started :: nat Server) \<noteq> None"
    by (simp add: defs)
  then have h3: "run Base (admit 1) example_started = Some ?s"
    by auto
  have h4: "panicked ?s = None" and h5: "caller ?s = S_Idle"
    and h7: "set [0] = conns ?s" and ss: "map pc (sessions ?s) = [H_Decode]"
    and cc: "closeCalls ?s = []"
    by (simp_all add: defs)
  have h6: "distinct [0 :: nat]" by simp
  have h8: "length [None :: error option] = length [0 :: nat]" by simp
  from shutdown_returns_without_waiting [OF h1 h2 h3 h4 h5 h6 h7 h8,
      of None DeadlinePassed, unfolded ss cc]
  obtain s' where "run Base ?sh ?s = Some s' \<and>
    shutdown s' \<and> listener s' = ListenerClosed \<and>
    closeCalls s' = [] @ [0] \<and>
    (\<forall>c \<in> conns ?s. stream_closed (sessions s' ! c)) \<and>
    \<not> connMutex s' \<and>
    caller s' = S_Returned (ctx_Err DeadlinePassed) \<and>
    (DeadlinePassed = NotDone \<longrightarrow> caller s' = S_Returned None) \<and>
    (DeadlinePassed = DeadlinePassed \<longrightarrow> caller s' = S_Returned (Some DeadlineExceeded)) \<and>
    map pc (sessions s') = [H_Decode] \<and> conns s' = conns ?s \<and>
    acceptor s' = acceptor ?s \<and> connSem s' = connSem ?s \<and> panicked s' = None \<and>
    (\<forall>ev \<in> set ?sh. \<exists>x. ev = Caller x)" ..
  then have s': "run Base ?sh ?s = Some s'"
    "caller s' = S_Returned (Some DeadlineExceeded)" "closeCalls s' = [0]"
    "map pc (sessions s') = [H_Decode]"
    by (simp_all add: ctx_Err_def)
  from run_append_Some [OF h3, of ?sh] s'(1)
  have "run Base (admit 1 @ ?sh) example_started = Some s'"
    by (simp only:)
  with s'(2,3,4) show ?thesis by simp
qed

text \<open>
  C7, as the code has it. In every state of an execution of a started server: while
  \<open>Shutdown\<close> has not been called the signal is not fired, and the call fires it;
  once fired, it stays fired in every execution; and when a call of \<open>Shutdown\<close> has
  returned, the signal is fired and the next call panics at its first statement, the
  \<^verbatim>\<open>close\<close> of a closed channel.
\<close>

theorem shutdown_signal_fires_once:
  assumes "NewServer cfg = Inr s0" and "Start None s0 = (None, s1)"
    and "run rv evs s1 = Some s" and "panicked s = None"
  shows "(caller s = S_Idle \<longrightarrow> \<not> shutdown s \<and>
       step rv (Caller CloseShutdown) s = Some (s\<lparr>shutdown := True, caller := S_ListenerClose\<rparr>)) \<and>
    (shutdown s \<longrightarrow> (\<forall>evs' s'. run rv evs' s = Some s' \<longrightarrow> shutdown s')) \<and>
    (\<forall>r. caller s = S_Returned r \<longrightarrow> shutdown s \<and>
       step rv (Caller CloseShutdown) s = Some (s\<lparr>panicked := Some CloseOfClosedChannel\<rparr>))"
proof -
  from inv_run [OF inv_started [OF assms(1,2)] assms(3)] have i: "inv_lock s"
    by (simp add: inv_def)
  have 1: "caller s = S_Idle \<longrightarrow> \<not> shutdown s \<and>
       step rv (Caller CloseShutdown) s = Some (s\<lparr>shutdown := True, caller := S_ListenerClose\<rparr>)"
  proof
    assume c: "caller s = S_Idle"
    with i have ns: "\<not> shutdown s" by (simp add: inv_lock_def)
    with c assms(4) show "\<not> shutdown s \<and>
       step rv (Caller CloseShutdown) s = Some (s\<lparr>shutdown := True, caller := S_ListenerClose\<rparr>)"
      by (simp add: step_def shutdown_step_def)
  qed
  have 2: "shutdown s \<longrightarrow> (\<forall>evs' s'. run rv evs' s = Some s' \<longrightarrow> shutdown s')"
    using run_keeps_shutdown by blast
  have 3: "\<forall>r. caller s = S_Returned r \<longrightarrow> shutdown s \<and>
       step rv (Caller CloseShutdown) s = Some (s\<lparr>panicked := Some CloseOfClosedChannel\<rparr>)"
    using i assms(4) by (auto simp add: inv_lock_def step_def shutdown_step_def)
  from 1 2 3 show ?thesis by (intro conjI)
qed

theorem shutdown_signal_fires_once_witness:
  "run Base (Shutdown_events None [] [] NotDone) (example_started :: nat Server) \<noteq> None \<and>
   shutdown (the (run Base (Shutdown_events None [] [] NotDone)
     (example_started :: nat Server))) \<and>
   step Base (Caller CloseShutdown) (the (run Base (Shutdown_events None [] [] NotDone)
     (example_started :: nat Server))) =
   Some ((the (run Base (Shutdown_events None [] [] NotDone)
     (example_started :: nat Server)))\<lparr>panicked := Some CloseOfClosedChannel\<rparr>)"
proof -
  let ?s = "the (run Base (Shutdown_events None [] [] NotDone) example_started)
    :: nat Server"
  note defs = example_started_def example_config_def NewServer_def Start_def make_chan_def
    Shutdown_events_def step_def shutdown_step_def ctx_Done_def ctx_Err_def
  have h1: "NewServer example_config =
      Inr (projr (NewServer example_config) :: nat Server)"
    by (simp add: NewServer_def make_chan_def example_config_def)
  have h2: "Start None (projr (NewServer example_config) :: nat Server) =
      (None, example_started)"
    by (simp add: Start_def example_started_def)
  have h0: "run Base (Shutdown_events None [] [] NotDone)
      (example_started :: nat Server) \<noteq> None"
    by (simp add: defs)
  then have h3: "run Base (Shutdown_events None [] [] NotDone) example_started = Some ?s"
    by auto
  have h4: "panicked ?s = None" and h5: "caller ?s = S_Returned None"
    by (simp_all add: defs)
  from shutdown_signal_fires_once [OF h1 h2 h3 h4] h5 h0 show ?thesis
    by blast
qed

text \<open>
  C7 as the specification states it fails: after a call of \<open>Shutdown\<close> has returned, the
  first step of a second call leaves the process panicked.
\<close>

theorem second_shutdown_panics_counterexample:
  "run Base (Shutdown_events None [] [] NotDone @ [Caller CloseShutdown])
     (example_started :: nat Server) \<noteq> None \<and>
   panicked (the (run Base (Shutdown_events None [] [] NotDone @ [Caller CloseShutdown])
     (example_started :: nat Server))) = Some CloseOfClosedChannel"
  by (simp add: example_started_def example_config_def NewServer_def Start_def make_chan_def
      Shutdown_events_def step_def shutdown_step_def ctx_Done_def ctx_Err_def)


section \<open>Failures of Accept and Decode\<close>

text \<open>
  C8. In every state of an execution of a started server in which \<^verbatim>\<open>Accept\<close> has just
  failed with \<open>err\<close> (the loop holds the permit it acquired): if \<open>shutdown\<close> is closed
  the only step of the inner \<^verbatim>\<open>select\<close> is the return, which logs nothing; if it is
  not, the return is not possible, and the loop logs the error, receives one permit back
  from \<open>connSem\<close>, which cannot block, and stands at the outer \<^verbatim>\<open>select\<close> again.
\<close>

theorem failed_accept_releases_and_continues:
  assumes "NewServer cfg = Inr s0" and "Start None s0 = (None, s1)"
    and "run rv evs s1 = Some s" and "panicked s = None"
    and "acceptor s = A_AcceptErr err"
  shows "(shutdown s \<longrightarrow>
       step rv (Acceptor ErrSelectShutdown) s = Some (s\<lparr>acceptor := A_Returned\<rparr>) \<and>
       step rv (Acceptor ErrSelectDefault) s = None) \<and>
    (\<not> shutdown s \<longrightarrow>
       step rv (Acceptor ErrSelectShutdown) s = None \<and>
       0 < chan_len (connSem s) \<and>
       run rv [Acceptor ErrSelectDefault, Acceptor ErrRelease] s =
         Some (s\<lparr>logger := logger s @ [AcceptError err],
                 connSem := (connSem s)\<lparr>chan_len := chan_len (connSem s) - 1\<rparr>,
                 acceptor := A_Select\<rparr>))"
proof -
  from inv_run [OF inv_started [OF assms(1,2)] assms(3)] have "inv_sem s"
    by (simp add: inv_def)
  with assms(5) have l: "0 < chan_len (connSem s)"
    by (simp add: inv_sem_def acceptor_permit_def)
  with assms(4,5) show ?thesis
    by (simp add: step_def acceptor_step_def chan_recv_def)
qed

theorem failed_accept_releases_and_continues_witness:
  "run Base [Acceptor SelectAcquire, Acceptor (Accept (Some ''too many open files'')),
      Acceptor ErrSelectDefault, Acceptor ErrRelease]
     (example_started :: nat Server) =
   Some (example_started\<lparr>logger := [Started ''8080'', AcceptError ''too many open files'']\<rparr>)"
proof -
  let ?evs = "[Acceptor SelectAcquire, Acceptor (Accept (Some ''too many open files''))]
    :: nat event list"
  let ?s = "the (run Base ?evs example_started) :: nat Server"
  note defs = example_started_def example_config_def NewServer_def Start_def make_chan_def
    step_def acceptor_step_def chan_send_def
  have h1: "NewServer example_config =
      Inr (projr (NewServer example_config) :: nat Server)"
    by (simp add: NewServer_def make_chan_def example_config_def)
  have h2: "Start None (projr (NewServer example_config) :: nat Server) =
      (None, example_started)"
    by (simp add: Start_def example_started_def)
  have h0: "run Base ?evs example_started \<noteq> None"
    by (simp add: defs)
  then have h3: "run Base ?evs example_started = Some ?s"
    by auto
  have h4: "panicked ?s = None" and h5: "acceptor ?s = A_AcceptErr ''too many open files''"
    and h6: "\<not> shutdown ?s"
    by (simp_all add: defs)
  from failed_accept_releases_and_continues [OF h1 h2 h3 h4 h5] h6
  have "run Base [Acceptor ErrSelectDefault, Acceptor ErrRelease] ?s =
    Some (?s\<lparr>logger := logger ?s @ [AcceptError ''too many open files''],
             connSem := (connSem ?s)\<lparr>chan_len := chan_len (connSem ?s) - 1\<rparr>,
             acceptor := A_Select\<rparr>)"
    by (rule conjunct2 [OF conjunct2 [OF mp [OF conjunct2]]])
  moreover have "?s\<lparr>logger := logger ?s @ [AcceptError ''too many open files''],
             connSem := (connSem ?s)\<lparr>chan_len := chan_len (connSem ?s) - 1\<rparr>,
             acceptor := A_Select\<rparr> =
    example_started\<lparr>logger := [Started ''8080'', AcceptError ''too many open files'']\<rparr>"
    by (simp add: defs)
  ultimately have "run Base [Acceptor ErrSelectDefault, Acceptor ErrRelease] ?s =
    Some (example_started\<lparr>logger := [Started ''8080'', AcceptError ''too many open files'']\<rparr>)"
    by (simp only:)
  with run_append_Some [OF h3, of "[Acceptor ErrSelectDefault, Acceptor ErrRelease]"]
  show ?thesis by simp
qed

text \<open>A handler that has left its loop never comes back to it.\<close>

lemma step_keeps_exited:
  assumes "inv_sem s" "step rv ev s = Some s'" "c < length (sessions s)"
    "exited (pc (sessions s ! c))"
  shows "c < length (sessions s') \<and> exited (pc (sessions s' ! c))"
proof (cases "\<exists>h. ev = Handler c h")
  case False
  from assms(4) have "pc (sessions s ! c) \<noteq> H_NotSpawned"
    by (auto simp: exited_def)
  from others_keep_pc [OF assms(1,2) _ assms(3) this] False assms(4) show ?thesis
    by simp
next
  case True
  then obtain h where "ev = Handler c h" ..
  with assms(2) have "handler_step rv c h s = Some s'"
    by (simp add: step_def split: if_splits)
  then show ?thesis
    using assms(3,4)
    by (cases rule: handler_step_cases)
      (simp_all add: length_set_pc pc_set_pc length_conn_Close exited_def)
qed

lemma run_keeps_exited:
  assumes "inv s" "run rv evs s = Some s'" "c < length (sessions s)"
    "exited (pc (sessions s ! c))"
  shows "c < length (sessions s') \<and> exited (pc (sessions s' ! c))"
  using assms
proof (induction evs arbitrary: s)
  case Nil
  then show ?case by simp
next
  case (Cons ev evs)
  from Cons.prems(2) obtain t where t: "step rv ev s = Some t" "run rv evs t = Some s'"
    by (auto split: option.splits)
  from Cons.prems(1) have "inv_sem s" by (simp add: inv_def)
  from step_keeps_exited [OF this t(1) Cons.prems(3,4)]
  have k: "c < length (sessions t)" "exited (pc (sessions t ! c))"
    by simp_all
  from Cons.IH [OF inv_step [OF Cons.prems(1) t(1)] t(2) k] show ?case .
qed

text \<open>
  C9. In every state of an execution of a started server in which the handler of
  connection \<open>c\<close> is decoding, a decode error \<open>err\<close> is a step that takes this handler
  to its deferred function and changes nothing else but the log: every other session,
  the accept loop, the permits, the registry and the caller of \<open>Shutdown\<close> are as they
  were. When the error is the end of the stream (its text is \<^verbatim>\<open>EOF\<close>) no error is
  logged: \<open>Base\<close> logs nothing, \<open>Verbose\<close> notes that the client closed the connection.
  Any other error is logged in one line. In no execution from there does this handler
  decode or encode again.
\<close>

theorem decode_failure_ends_session:
  assumes "NewServer cfg = Inr s0" and "Start None s0 = (None, s1)"
    and "run rv evs s1 = Some s" and "panicked s = None"
    and "c < length (sessions s)" and "pc (sessions s ! c) = H_Decode"
  shows "\<exists>s'. step rv (Handler c (Decode (Inl err))) s = Some s' \<and>
    logger s' = logger s @
      (if err = ''EOF'' then (if rv = Verbose then [ClosedByClient c] else [])
       else [if rv = Verbose then DecodeErrorFrom c err else DecodeError err]) \<and>
    pc (sessions s' ! c) = H_DeferClose \<and>
    length (sessions s') = length (sessions s) \<and>
    (\<forall>k. k \<noteq> c \<longrightarrow> sessions s' ! k = sessions s ! k) \<and>
    acceptor s' = acceptor s \<and> connSem s' = connSem s \<and> conns s' = conns s \<and>
    caller s' = caller s \<and> shutdown s' = shutdown s \<and> listener s' = listener s \<and>
    panicked s' = None \<and>
    (\<forall>evs' s''. run rv evs' s' = Some s'' \<longrightarrow>
       exited (pc (sessions s'' ! c)) \<and>
       (\<forall>r. step rv (Handler c (Decode r)) s'' = None) \<and>
       (\<forall>r. step rv (Handler c (Encode r)) s'' = None))"
proof -
  from inv_run [OF inv_started [OF assms(1,2)] assms(3)] have i: "inv s" .
  let ?s' = "s\<lparr>logger := logger s @
                 (if err \<noteq> ''EOF''
                  then [if rv = Verbose then DecodeErrorFrom c err else DecodeError err]
                  else if rv = Verbose then [ClosedByClient c] else []),
               sessions := set_pc c H_DeferClose (sessions s)\<rparr>"
  from assms(4,5,6) have st: "step rv (Handler c (Decode (Inl err))) s = Some ?s'"
    by (simp add: step_def handler_step_def)
  note i' = inv_step [OF i st]
  have c': "c < length (sessions ?s')" "exited (pc (sessions ?s' ! c))"
    using assms(5) by (simp_all add: length_set_pc pc_set_pc exited_def)
  have never: "exited (pc (sessions s'' ! c)) \<and>
       (\<forall>r. step rv (Handler c (Decode r)) s'' = None) \<and>
       (\<forall>r. step rv (Handler c (Encode r)) s'' = None)"
    if "run rv evs' ?s' = Some s''" for evs' s''
  proof -
    from run_keeps_exited [OF i' that c'] have e: "exited (pc (sessions s'' ! c))"
      by simp
    have "step rv (Handler c (Decode r)) s'' = None" for r
      using e by (cases r) (auto simp: step_def handler_step_def exited_def)
    moreover have "step rv (Handler c (Encode r)) s'' = None" for r
      using e by (cases r) (auto simp: step_def handler_step_def exited_def split: hpc.splits)
    ultimately show ?thesis using e by blast
  qed
  have others: "\<forall>k. k \<noteq> c \<longrightarrow> sessions ?s' ! k = sessions s ! k"
    by (simp add: set_pc_def)
  show ?thesis
    unfolding st using never others assms(4,5)
    by (simp add: length_set_pc pc_set_pc)
qed

theorem decode_failure_ends_session_witness:
  "step Base (Handler 0 (Decode (Inl ''EOF'')))
     (the (run Base (admit 1) (example_started :: nat Server))) \<noteq> None \<and>
   logger (the (step Base (Handler 0 (Decode (Inl ''EOF'')))
     (the (run Base (admit 1) (example_started :: nat Server))))) =
     [Started ''8080''] \<and>
   logger (the (step Base (Handler 0 (Decode (Inl ''unexpected EOF'')))
     (the (run Base (admit 1) (example_started :: nat Server))))) =
     [Started ''8080'', DecodeError ''unexpected EOF'']"
proof -
  let ?s = "the (run Base (admit 1) example_started) :: nat Server"
  note defs = example_started_def example_config_def NewServer_def Start_def make_chan_def
    step_def acceptor_step_def handler_step_def chan_send_def set_pc_def
  have h1: "NewServer example_config =
      Inr (projr (NewServer example_config) :: nat Server)"
    by (simp add: NewServer_def make_chan_def example_config_def)
  have h2: "Start None (projr (NewServer example_config) :: nat Server) =
      (None, example_started)"
    by (simp add: Start_def example_started_def)
  have h0: "run Base (admit 1) (example_started :: nat Server) \<noteq> None"
    by (simp add: defs)
  then have h3: "run Base (admit 1) example_started = Some ?s"
    by auto
  have h4: "panicked ?s = None" and h5: "0 < length (sessions ?s)"
    and h6: "pc (sessions ?s ! 0) = H_Decode" and lg: "logger ?s = [Started ''8080'']"
    by (simp_all add: defs)
  from decode_failure_ends_session [OF h1 h2 h3 h4 h5 h6, of "''EOF''", unfolded lg]
  obtain a where a: "step Base (Handler 0 (Decode (Inl ''EOF''))) ?s = Some a"
    "logger a = [Started ''8080'']"
    by (elim exE conjE) simp
  from decode_failure_ends_session [OF h1 h2 h3 h4 h5 h6, of "''unexpected EOF''", unfolded lg]
  obtain b where b: "step Base (Handler 0 (Decode (Inl ''unexpected EOF''))) ?s = Some b"
    "logger b = [Started ''8080'', DecodeError ''unexpected EOF'']"
    by (elim exE conjE) simp
  show ?thesis
    by (simp only: a b option.sel) simp
qed

section \<open>The timeouts of the configuration\<close>

text \<open>No step reads the configuration.\<close>

lemma acceptor_step_config:
  "acceptor_step a (s\<lparr>config := cf\<rparr>) = map_option (\<lambda>t. t\<lparr>config := cf\<rparr>) (acceptor_step a s)"
proof (cases a)
  case (Accept r)
  then show ?thesis by (cases r) (simp_all add: acceptor_step_def)
qed (simp_all add: acceptor_step_def split: option.splits apc.splits)

lemma handler_step_config:
  "handler_step rv c h (s\<lparr>config := cf\<rparr>) =
     map_option (\<lambda>t. t\<lparr>config := cf\<rparr>) (handler_step rv c h s)"
proof (cases h)
  case (Decode r)
  then show ?thesis by (cases r) (simp_all add: handler_step_def)
next
  case (Encode r)
  then show ?thesis by (cases r) (simp_all add: handler_step_def split: hpc.splits)
qed (simp_all add: handler_step_def split: option.splits hpc.splits)

lemma shutdown_step_config:
  "shutdown_step e (s\<lparr>config := cf\<rparr>) = map_option (\<lambda>t. t\<lparr>config := cf\<rparr>) (shutdown_step e s)"
proof (cases e)
  case CloseShutdown
  then show ?thesis by (cases "caller s") (simp_all add: shutdown_step_def)
next
  case (ListenerClose r)
  then show ?thesis by (cases "listener s") (simp_all add: shutdown_step_def)
next
  case (ConnClose r)
  then show ?thesis
    by (simp add: shutdown_step_def case_prod_beta split: spc.splits list.splits)
qed (simp_all add: shutdown_step_def)

lemma step_config_update:
  "step rv ev (s\<lparr>config := cf\<rparr>) = map_option (\<lambda>t. t\<lparr>config := cf\<rparr>) (step rv ev s)"
  by (cases ev)
    (simp_all add: step_def acceptor_step_config handler_step_config shutdown_step_config)

lemma run_config_update:
  "run rv evs (s\<lparr>config := cf\<rparr>) = map_option (\<lambda>t. t\<lparr>config := cf\<rparr>) (run rv evs s)"
proof (induction evs arbitrary: s)
  case Nil
  then show ?case by simp
next
  case (Cons ev evs)
  then show ?case
    by (cases "step rv ev s") (simp_all add: step_config_update)
qed

text \<open>
  C10. In every state of an execution of a started server no stream has a read or a
  write deadline. The execution does not depend on \<open>ReadTimeout\<close> and \<open>WriteTimeout\<close>:
  with any other two values in the configuration the same events lead to the same
  state, but for the configuration that the server carries. And a handler that is
  decoding moves only when the decoder returns: no other step of its own is possible.
\<close>

theorem timeouts_never_applied:
  assumes "NewServer cfg = Inr s0" and "Start None s0 = (None, s1)"
    and "run rv evs s1 = Some s"
  shows "(\<forall>x \<in> set (sessions s). readDeadline x = None \<and> writeDeadline x = None) \<and>
    (\<forall>r w. \<exists>t0 t1. NewServer (cfg\<lparr>ReadTimeout := r, WriteTimeout := w\<rparr>) = Inr t0 \<and>
       Start None t0 = (None, t1) \<and>
       run rv evs t1 = Some (s\<lparr>config := cfg\<lparr>ReadTimeout := r, WriteTimeout := w\<rparr>\<rparr>)) \<and>
    (\<forall>c h s'. c < length (sessions s) \<and> pc (sessions s ! c) = H_Decode \<and>
       step rv (Handler c h) s = Some s' \<longrightarrow> (\<exists>r. h = Decode r))"
proof -
  from inv_run [OF inv_started [OF assms(1,2)] assms(3)]
  have 1: "\<forall>x \<in> set (sessions s). readDeadline x = None \<and> writeDeadline x = None"
    by (simp add: inv_def inv_reg_def)
  have 2: "\<exists>t0 t1. NewServer (cfg\<lparr>ReadTimeout := r, WriteTimeout := w\<rparr>) = Inr t0 \<and>
       Start None t0 = (None, t1) \<and>
       run rv evs t1 = Some (s\<lparr>config := cfg\<lparr>ReadTimeout := r, WriteTimeout := w\<rparr>\<rparr>)"
    for r w
  proof -
    let ?cf = "cfg\<lparr>ReadTimeout := r, WriteTimeout := w\<rparr>"
    from assms(1) have a: "NewServer ?cf = Inr (s0\<lparr>config := ?cf\<rparr>)"
      by (auto simp: NewServer_def make_chan_def split: if_splits)
    from assms(1,2) have b: "Start None (s0\<lparr>config := ?cf\<rparr>) = (None, s1\<lparr>config := ?cf\<rparr>)"
      by (auto simp: NewServer_def make_chan_def Start_def split: if_splits)
    have "run rv evs (s1\<lparr>config := ?cf\<rparr>) = Some (s\<lparr>config := ?cf\<rparr>)"
      by (simp add: run_config_update assms(3))
    with a b show ?thesis by blast
  qed
  have 3: "\<exists>r. h = Decode r"
    if "c < length (sessions s)" "pc (sessions s ! c) = H_Decode"
      "step rv (Handler c h) s = Some s'" for c h s'
  proof -
    from that(3) have "handler_step rv c h s = Some s'"
      by (simp add: step_def split: if_splits)
    then show ?thesis
      using that(2) by (cases rule: handler_step_cases) simp_all
  qed
  from 1 2 3 show ?thesis by blast
qed

theorem timeouts_never_applied_witness:
  "run Base (admit 2) (example_started :: nat Server) \<noteq> None \<and>
   map readDeadline (sessions (the (run Base (admit 2)
     (example_started :: nat Server)))) = [None, None] \<and>
   map writeDeadline (sessions (the (run Base (admit 2)
     (example_started :: nat Server)))) = [None, None] \<and>
   ReadTimeout (config (the (run Base (admit 2)
     (example_started :: nat Server)))) = 30000000000"
proof -
  let ?s = "the (run Base (admit 2) example_started) :: nat Server"
  note defs = example_started_def example_config_def NewServer_def Start_def make_chan_def
    numeral_2_eq_2 step_def acceptor_step_def handler_step_def chan_send_def set_pc_def
  have h1: "NewServer example_config =
      Inr (projr (NewServer example_config) :: nat Server)"
    by (simp add: NewServer_def make_chan_def example_config_def)
  have h2: "Start None (projr (NewServer example_config) :: nat Server) =
      (None, example_started)"
    by (simp add: Start_def example_started_def)
  have h0: "run Base (admit 2) (example_started :: nat Server) \<noteq> None"
    by (simp add: defs)
  then have h3: "run Base (admit 2) example_started = Some ?s"
    by auto
  have l: "length (sessions ?s) = 2" and c: "ReadTimeout (config ?s) = 30000000000"
    by (simp_all add: defs)
  from timeouts_never_applied [OF h1 h2 h3]
  have d: "\<forall>x \<in> set (sessions ?s). readDeadline x = None \<and> writeDeadline x = None"
    by (rule conjunct1)
  from l obtain x y where xy: "sessions ?s = [x, y]"
    by (cases "sessions ?s"; cases "tl (sessions ?s)") auto
  from d have "map readDeadline (sessions ?s) = [None, None]"
    "map writeDeadline (sessions ?s) = [None, None]"
    unfolding xy by simp_all
  with h0 c show ?thesis by simp
qed


end
